theory Spec2Isabelle
  imports Complex_Main "HOL-Library.Word" "HOL-Library.Log_Nat"
begin

section \<open>JavaScript numbers\<close>

text \<open>
  A JavaScript number is an IEEE-754 double: a finite binary rational, one of the two
  infinities, or NaN. Finite values are carried as rationals; every arithmetic operator
  rounds its exact result to the nearest double, ties to even (\<open>fl64\<close>, 53 significant
  bits). The exponent of \<open>fl64\<close> is unbounded: overflow to infinity and gradual
  underflow are not part of the model. The numbers computed below are made of 16-bit
  integers, 32-bit floats, byte counts and millisecond clocks by a few sums, differences,
  quotients and products with small constants, which stay far inside the exponent range
  of a double. The sign of zero is not recorded either; no value reported below depends
  on it. The value
  \<open>undefined\<close>, read from a typed array out of range, behaves as NaN in every comparison
  and arithmetic operator used below and is represented by \<open>NaN\<close>.
\<close>

datatype jsnum = Fin rat | PInf | NInf | NaN

definition rne :: "rat \<Rightarrow> int" where
  "rne x = (let f = \<lfloor>x\<rfloor>; d = x - of_int f in
     if d < 1 / 2 then f else if 1 / 2 < d then f + 1 else if even f then f else f + 1)"

definition ilog2 :: "rat \<Rightarrow> int" where
  "ilog2 a = (if 1 \<le> a then bitlen \<lfloor>a\<rfloor> - 1 else - bitlen (\<lceil>1 / a\<rceil> - 1))"

definition fl64 :: "rat \<Rightarrow> rat" where
  "fl64 x = (if x = 0 then 0 else
     let a = \<bar>x\<bar>; u = 2 powi (ilog2 a - 52) in sgn x * of_int (rne (a / u)) * u)"

fun isFinite :: "jsnum \<Rightarrow> bool" where
  "isFinite (Fin _) = True"
| "isFinite _ = False"

fun js_lt :: "jsnum \<Rightarrow> jsnum \<Rightarrow> bool" where
  "js_lt NaN _ = False"
| "js_lt _ NaN = False"
| "js_lt (Fin a) (Fin b) = (a < b)"
| "js_lt PInf _ = False"
| "js_lt _ PInf = True"
| "js_lt _ NInf = False"
| "js_lt NInf _ = True"

definition js_gt :: "jsnum \<Rightarrow> jsnum \<Rightarrow> bool" where
  "js_gt a b = js_lt b a"

fun js_le :: "jsnum \<Rightarrow> jsnum \<Rightarrow> bool" where
  "js_le NaN _ = False"
| "js_le _ NaN = False"
| "js_le (Fin a) (Fin b) = (a \<le> b)"
| "js_le NInf _ = True"
| "js_le _ PInf = True"
| "js_le _ _ = False"

definition js_ge :: "jsnum \<Rightarrow> jsnum \<Rightarrow> bool" where
  "js_ge a b = js_le b a"

fun js_neg :: "jsnum \<Rightarrow> jsnum" where
  "js_neg (Fin a) = Fin (- a)"
| "js_neg PInf = NInf"
| "js_neg NInf = PInf"
| "js_neg NaN = NaN"

fun js_add :: "jsnum \<Rightarrow> jsnum \<Rightarrow> jsnum" where
  "js_add NaN _ = NaN"
| "js_add _ NaN = NaN"
| "js_add (Fin a) (Fin b) = Fin (fl64 (a + b))"
| "js_add PInf NInf = NaN"
| "js_add NInf PInf = NaN"
| "js_add PInf _ = PInf"
| "js_add NInf _ = NInf"
| "js_add _ PInf = PInf"
| "js_add _ NInf = NInf"

definition js_sub :: "jsnum \<Rightarrow> jsnum \<Rightarrow> jsnum" where
  "js_sub a b = js_add a (js_neg b)"

fun js_mul :: "jsnum \<Rightarrow> jsnum \<Rightarrow> jsnum" where
  "js_mul NaN _ = NaN"
| "js_mul _ NaN = NaN"
| "js_mul (Fin a) (Fin b) = Fin (fl64 (a * b))"
| "js_mul (Fin a) i = (if a = 0 then NaN else if 0 < a then i else js_neg i)"
| "js_mul i (Fin b) = (if b = 0 then NaN else if 0 < b then i else js_neg i)"
| "js_mul PInf i = i"
| "js_mul NInf i = js_neg i"

text \<open>
  Division by a zero divisor gives an infinity of the dividend's sign (the divisor is
  taken as \<open>+0\<close>), or NaN for \<open>0 / 0\<close>; it never throws.
\<close>

fun js_div :: "jsnum \<Rightarrow> jsnum \<Rightarrow> jsnum" where
  "js_div NaN _ = NaN"
| "js_div _ NaN = NaN"
| "js_div (Fin a) (Fin b) =
     (if b = 0 then (if a = 0 then NaN else if 0 < a then PInf else NInf)
      else Fin (fl64 (a / b)))"
| "js_div (Fin a) _ = Fin 0"
| "js_div i (Fin b) = (if 0 \<le> b then i else js_neg i)"
| "js_div _ _ = NaN"

definition Math_max :: "jsnum \<Rightarrow> jsnum \<Rightarrow> jsnum" where
  "Math_max a b = (if a = NaN \<or> b = NaN then NaN else if js_lt a b then b else a)"

definition Math_min :: "jsnum \<Rightarrow> jsnum \<Rightarrow> jsnum" where
  "Math_min a b = (if a = NaN \<or> b = NaN then NaN else if js_lt b a then b else a)"

fun Math_round :: "jsnum \<Rightarrow> jsnum" where
  "Math_round (Fin x) = Fin (of_int \<lfloor>x + 1 / 2\<rfloor>)"
| "Math_round i = i"

fun Math_floor :: "jsnum \<Rightarrow> jsnum" where
  "Math_floor (Fin x) = Fin (of_int \<lfloor>x\<rfloor>)"
| "Math_floor i = i"

fun Math_ceil :: "jsnum \<Rightarrow> jsnum" where
  "Math_ceil (Fin x) = Fin (of_int \<lceil>x\<rceil>)"
| "Math_ceil i = i"

fun Math_abs :: "jsnum \<Rightarrow> jsnum" where
  "Math_abs (Fin x) = Fin \<bar>x\<bar>"
| "Math_abs NaN = NaN"
| "Math_abs _ = PInf"

text \<open>
  Storing a number into a \<open>Uint8Array\<close> element: NaN and the infinities become 0,
  a finite value is truncated towards zero and reduced modulo 256.
\<close>

fun ToUint8 :: "jsnum \<Rightarrow> 8 word" where
  "ToUint8 (Fin x) = word_of_int (if 0 \<le> x then \<lfloor>x\<rfloor> else \<lceil>x\<rceil>)"
| "ToUint8 _ = 0"

text \<open>\<open>1 << n\<close>: a 32-bit signed shift whose count is taken modulo 32.\<close>

definition shl1 :: "nat \<Rightarrow> int" where
  "shl1 n = sint (push_bit (n mod 32) (1 :: 32 word))"

section \<open>Typed arrays\<close>

datatype typed_array =
    Uint8Array "8 word list"
  | Uint16Array "16 word list"
  | Float32Array "jsnum list"

definition u16num :: "16 word \<Rightarrow> jsnum" where
  "u16num d = Fin (of_nat (unat d))"

text \<open>An indexed read of a \<open>Uint16Array\<close>; out of range it is \<open>undefined\<close>.\<close>

definition read16 :: "16 word list \<Rightarrow> nat \<Rightarrow> jsnum" where
  "read16 xs i = (if i < length xs then u16num (xs ! i) else NaN)"

fun ta_length :: "typed_array \<Rightarrow> nat" where
  "ta_length (Uint8Array xs) = length xs"
| "ta_length (Uint16Array xs) = length xs"
| "ta_length (Float32Array xs) = length xs"

section \<open>validateTiff\<close>

record validation =
  isValid :: bool
  message :: string

text \<open>
  \<open>DataView\<close> reads throw a \<open>RangeError\<close> outside the buffer; the thrown error is
  the left summand, carrying its message.
\<close>

definition RangeError :: string where
  "RangeError = ''Offset is outside the bounds of the DataView''"

definition getUint8 :: "8 word list \<Rightarrow> nat \<Rightarrow> string + nat" where
  "getUint8 buffer off =
     (if off < length buffer then Inr (unat (buffer ! off)) else Inl RangeError)"

definition getUint16 :: "8 word list \<Rightarrow> nat \<Rightarrow> bool \<Rightarrow> string + nat" where
  "getUint16 buffer off littleEndian =
     (if off + 1 < length buffer then
        Inr (if littleEndian
             then unat (buffer ! off) + 256 * unat (buffer ! (off + 1))
             else 256 * unat (buffer ! off) + unat (buffer ! (off + 1)))
      else Inl RangeError)"

definition fromCharCode :: "nat list \<Rightarrow> string" where
  "fromCharCode cs = map char_of cs"

definition digit_char :: "nat \<Rightarrow> char" where
  "digit_char d = ''0123456789abcdefghijklmnopqrstuvwxyz'' ! d"

text \<open>\<open>Number.prototype.toString(radix)\<close> on a non-negative integer.\<close>

function toString_radix :: "nat \<Rightarrow> nat \<Rightarrow> string" where
  "toString_radix b n =
     (if n < b \<or> b < 2 then [digit_char n]
      else toString_radix b (n div b) @ [digit_char (n mod b)])"
  by pat_completeness auto
termination
  by (relation "measure snd") auto

declare toString_radix.simps [simp del]

definition padStart :: "nat \<Rightarrow> char \<Rightarrow> string \<Rightarrow> string" where
  "padStart n c s = replicate (n - length s) c @ s"

definition validateTiff_try :: "8 word list \<Rightarrow> string + validation" where
  "validateTiff_try buffer =
    (if length buffer < 8 then
       Inr \<lparr>isValid = False, message = ''File is too small to be a valid TIFF''\<rparr>
     else case getUint8 buffer 0 of Inl e \<Rightarrow> Inl e | Inr byte1 \<Rightarrow>
       (case getUint8 buffer 1 of Inl e \<Rightarrow> Inl e | Inr byte2 \<Rightarrow>
         (let byteOrder = fromCharCode [byte1, byte2] in
          if byteOrder \<noteq> ''II'' \<and> byteOrder \<noteq> ''MM'' then
            Inr \<lparr>isValid = False,
                 message = ''Invalid TIFF byte order marker: 0x''
                   @ padStart 2 CHR ''0'' (toString_radix 16 byte1)
                   @ padStart 2 CHR ''0'' (toString_radix 16 byte2)\<rparr>
          else case getUint16 buffer 2 (byteOrder = ''II'') of Inl e \<Rightarrow> Inl e
            | Inr magicNumber \<Rightarrow>
              if magicNumber \<noteq> 42 then
                Inr \<lparr>isValid = False,
                     message = ''Invalid TIFF magic number: ''
                       @ toString_radix 10 magicNumber @ '' (expected 42)''\<rparr>
              else Inr \<lparr>isValid = True, message = ''Valid TIFF file''\<rparr>)))"

text \<open>The \<open>try ... catch\<close> around the whole body turns a thrown error into a result.\<close>

definition validateTiff :: "8 word list \<Rightarrow> validation" where
  "validateTiff buffer =
    (case validateTiff_try buffer of
       Inr r \<Rightarrow> r
     | Inl e \<Rightarrow> \<lparr>isValid = False, message = ''Error validating TIFF: '' @ e\<rparr>)"

section \<open>The two normalizers\<close>

text \<open>
  The search for the smallest and the largest sample of a \<open>Uint16Array\<close>, from index 1
  on, the running minimum and maximum starting at \<open>data[0]\<close>.
\<close>

fun range16 :: "16 word list \<Rightarrow> jsnum \<times> jsnum \<Rightarrow> jsnum \<times> jsnum" where
  "range16 [] (minValue, maxValue) = (minValue, maxValue)"
| "range16 (d # ds) (minValue, maxValue) =
     range16 ds
       (if js_lt (u16num d) minValue then u16num d else minValue,
        if js_gt (u16num d) maxValue then u16num d else maxValue)"

text \<open>The same search over a \<open>Float32Array\<close>, skipping the samples that are not finite.\<close>

fun range32 :: "jsnum list \<Rightarrow> jsnum \<times> jsnum \<Rightarrow> jsnum \<times> jsnum" where
  "range32 [] (minValue, maxValue) = (minValue, maxValue)"
| "range32 (d # ds) (minValue, maxValue) =
     range32 ds
       (if isFinite d then
          (if js_lt d minValue then d else minValue,
           if js_gt d maxValue then d else maxValue)
        else (minValue, maxValue))"

definition stretch_sample :: "jsnum \<Rightarrow> jsnum \<Rightarrow> jsnum \<Rightarrow> 8 word" where
  "stretch_sample minValue dataRange d =
     (let normalizedValue = js_mul (js_div (js_sub d minValue) dataRange) (Fin 255)
      in ToUint8 (Math_round (Math_max (Fin 0) (Math_min (Fin 255) normalizedValue))))"

fun normalizeToUint8Enhanced :: "typed_array \<Rightarrow> nat \<Rightarrow> 8 word list" where
  "normalizeToUint8Enhanced (Uint8Array data) bitsPerSample =
     (if bitsPerSample = 1 then map (\<lambda>d. if 0 < d then 255 else 0) data
      else data)"
| "normalizeToUint8Enhanced (Uint16Array data) bitsPerSample =
     (let (minValue, maxValue) = range16 (drop 1 data) (read16 data 0, read16 data 0);
          dataRange = js_sub maxValue minValue
      in if js_gt dataRange (Fin 0) then
           map (\<lambda>d. stretch_sample minValue dataRange (u16num d)) data
         else
           (let fallbackValue = Math_round
                  (js_mul (js_div minValue (Fin (of_int (shl1 bitsPerSample - 1)))) (Fin 255))
            in replicate (length data) (ToUint8 fallbackValue)))"
| "normalizeToUint8Enhanced (Float32Array data) bitsPerSample =
     (let (minValue, maxValue) = range32 data (PInf, NInf)
      in if \<not> isFinite minValue \<or> \<not> isFinite maxValue then replicate (length data) 0
         else
           (let dataRange = js_sub maxValue minValue
            in if js_gt dataRange (Fin 0) then
                 map (\<lambda>d. if isFinite d then stretch_sample minValue dataRange d else 0) data
               else
                 (let fallbackValue =
                        (if isFinite minValue then
                           Math_round (if js_gt (Math_abs minValue) (Fin 1) then Fin 255
                                       else js_mul (Math_abs minValue) (Fin 255))
                         else Fin 0)
                  in replicate (length data) (ToUint8 fallbackValue))))"

fun normalizeToUint8 :: "typed_array \<Rightarrow> nat \<Rightarrow> 8 word list" where
  "normalizeToUint8 (Uint8Array data) bitsPerSample = data"
| "normalizeToUint8 (Uint16Array data) bitsPerSample =
     (let maxValue = Fin (of_int (shl1 bitsPerSample - 1))
      in map (\<lambda>d. ToUint8 (Math_floor (js_mul (js_div (u16num d) maxValue) (Fin 255)))) data)"
| "normalizeToUint8 (Float32Array data) bitsPerSample =
     map (\<lambda>d. ToUint8 (Math_floor
            (js_mul (Math_max (Fin 0) (Math_min (Fin 1) d)) (Fin 255)))) data"

section \<open>loadAndProcessTiff\<close>

text \<open>
  A call \<open>onProgress(progress, stage, estimatedTime)\<close>; the third argument is optional.
  The function is modelled by the list of these calls, in order, together with its
  result: the \<open>ImageData\<close> it resolves to, or the message of the \<open>Error\<close> it rejects
  with.
\<close>

type_synonym progress = "jsnum \<times> string \<times> jsnum option"

text \<open>
  What the TIFF library hands out. \<open>getBitsPerSample()\<close> is a number or a non-empty
  array of numbers; \<open>readRasters\<close> is called with \<open>interleave: true\<close>, the image's own
  width and height and \<open>resampleMethod: "nearest"\<close>, so that only the list of samples
  varies; it returns a typed array or throws.
\<close>

datatype bits = Scalar nat | PerChannel nat "nat list"

record image =
  getWidth :: nat
  getHeight :: nat
  getSamplesPerPixel :: nat
  getBitsPerSample :: bits
  readRasters :: "nat list \<Rightarrow> string + typed_array"

record tiff =
  getImage :: "nat \<Rightarrow> string + image"

text \<open>
  The response of \<open>fetch\<close>. The \<open>content-length\<close> header is carried as the
  non-negative integer \<open>parseInt\<close> reads from it (\<open>None\<close> when the header is absent or
  not a number). The body stream delivers chunks, each paired with the value of
  \<open>Date.now()\<close> read after its arrival, and then either ends or fails.
\<close>

record stream =
  stream_chunks :: "(8 word list \<times> int) list"
  stream_error :: "string option"

record response =
  response_ok :: bool
  response_status :: nat
  response_statusText :: string
  content_length :: "nat option"
  response_body :: "stream option"

record env =
  fetch :: "string \<Rightarrow> string + response"
  fromArrayBuffer :: "8 word list \<Rightarrow> string + tiff"
  startTime :: int

record ImageData =
  image_data :: "8 word list"
  image_width :: nat
  image_height :: nat

text \<open>
  The \<open>ImageData\<close> constructor throws when a dimension is zero or when the array does
  not hold \<open>4 * width * height\<close> bytes.
\<close>

definition new_ImageData :: "8 word list \<Rightarrow> nat \<Rightarrow> nat \<Rightarrow> string + ImageData" where
  "new_ImageData pixelData width height =
     (if width = 0 \<or> height = 0 then Inl ''The source width or height is zero''
      else if length pixelData \<noteq> 4 * width * height then
        Inl ''The input data length is not equal to (4 * width * height)''
      else Inr \<lparr>image_data = pixelData, image_width = width, image_height = height\<rparr>)"

text \<open>Truthiness of \<open>totalSize\<close>: \<open>null\<close> and 0 are falsy.\<close>

fun truthy_size :: "nat option \<Rightarrow> bool" where
  "truthy_size None = False"
| "truthy_size (Some n) = (n \<noteq> 0)"

definition initial_estimate :: "nat option \<Rightarrow> progress" where
  "initial_estimate totalSize =
     (case totalSize of
        Some n \<Rightarrow>
          if n \<noteq> 0 then
            (let downloadTimeEstimate = Math_ceil (js_div (Fin (of_nat n)) (Fin 1048576));
                 processingTimeEstimate = Math_ceil (js_div (Fin (of_nat n)) (Fin 5242880));
                 totalEstimate =
                   Math_max (Fin 3) (js_add downloadTimeEstimate processingTimeEstimate)
             in (Fin 5, ''Downloading TIFF file...'', Some totalEstimate))
          else (Fin 5, ''Downloading TIFF file...'', Some (Fin 15))
      | None \<Rightarrow> (Fin 5, ''Downloading TIFF file...'', Some (Fin 15)))"

text \<open>The progress call made for one chunk when the total size is known.\<close>

definition known_size_progress :: "nat \<Rightarrow> int \<Rightarrow> nat \<Rightarrow> int \<Rightarrow> progress" where
  "known_size_progress n start downloaded now =
     (let totalSize = Fin (of_nat n);
          downloadedSize = Fin (of_nat downloaded);
          downloadProgress =
            Math_min (js_mul (js_div downloadedSize totalSize) (Fin 50)) (Fin 50);
          elapsed = js_sub (Fin (of_int now)) (Fin (of_int start));
          downloadSpeed = js_div downloadedSize elapsed;
          remainingBytes = js_sub totalSize downloadedSize;
          estimatedDownloadTime = js_div remainingBytes downloadSpeed;
          processingTimeEstimate = js_mul (js_div totalSize (Fin 10485760)) (Fin 1000);
          totalEstimatedTime = js_add estimatedDownloadTime processingTimeEstimate;
          estimatedSeconds = Math_ceil (js_div totalEstimatedTime (Fin 1000));
          showEstimate = (js_gt downloadedSize (Fin 1024) \<and> js_gt elapsed (Fin 500))
      in (js_add (Fin 10) downloadProgress, ''Downloading data...'',
          Some (if showEstimate then Math_max (Fin 1) estimatedSeconds
                else if n \<noteq> 0 then
                  Math_ceil (js_add (js_div totalSize (Fin 1048576))
                                    (js_div totalSize (Fin 5242880)))
                else Fin 15)))"

text \<open>The progress call made for one chunk when the total size is not known.\<close>

definition unknown_size_progress :: "int \<Rightarrow> int \<Rightarrow> progress" where
  "unknown_size_progress start now =
     (let elapsed = js_sub (Fin (of_int now)) (Fin (of_int start));
          baseEstimate = Fin 15;
          adjustedEstimate =
            Math_max (Fin 3) (js_sub baseEstimate (Math_floor (js_div elapsed (Fin 1000))))
      in (Fin 20, ''Downloading data...'', Some adjustedEstimate))"

text \<open>
  The read loop: one progress call per chunk, \<open>downloadedSize\<close> growing by the chunk's
  length (a byte count, far below \<open>2 ^ 53\<close>, kept as a natural number).
\<close>

fun download :: "nat option \<Rightarrow> int \<Rightarrow> nat \<Rightarrow> (8 word list \<times> int) list \<Rightarrow> progress list" where
  "download totalSize start downloadedSize [] = []"
| "download totalSize start downloadedSize ((chunk, now) # rest) =
     (case totalSize of
        Some n \<Rightarrow>
          if n \<noteq> 0 then known_size_progress n start (downloadedSize + length chunk) now
          else unknown_size_progress start now
      | None \<Rightarrow> unknown_size_progress start now)
     # download totalSize start (downloadedSize + length chunk) rest"

fun bitsPerSampleValue :: "bits \<Rightarrow> nat" where
  "bitsPerSampleValue (Scalar n) = n"
| "bitsPerSampleValue (PerChannel n ns) = n"

definition gray_progressMessage :: "nat \<Rightarrow> string" where
  "gray_progressMessage bitsPerSample =
     (if bitsPerSample = 1 then ''Processing bitonal (black & white) image...''
      else if bitsPerSample = 16 then ''Processing medical/radiography image...''
      else if bitsPerSample = 32 then ''Processing scientific analysis image...''
      else ''Processing grayscale image...'')"

definition rgb_progressMessage :: "nat \<Rightarrow> nat \<Rightarrow> string" where
  "rgb_progressMessage bitsPerSample samplesPerPixel =
     (if bitsPerSample = 8 \<and> samplesPerPixel = 3 then ''Processing 24-bit true color image...''
      else if bitsPerSample = 16 \<and> samplesPerPixel = 3 then
        ''Processing 48-bit high-precision color image...''
      else if bitsPerSample = 16 then ''Processing high-precision color image...''
      else if bitsPerSample = 32 then ''Processing scientific color analysis image...''
      else ''Processing multi-channel image...'')"

text \<open>
  Reading a \<open>Uint8Array\<close> element to store it into the \<open>Uint8ClampedArray\<close>: out of
  range the element is \<open>undefined\<close>, which is stored as 0. A store outside the
  \<open>Uint8ClampedArray\<close> is ignored, as \<open>xs[i := v]\<close> is.
\<close>

definition elem :: "8 word list \<Rightarrow> nat \<Rightarrow> 8 word" where
  "elem xs i = (if i < length xs then xs ! i else 0)"

text \<open>
  The loop \<open>for (i = 0; i < normalizedData.length; i++)\<close> of the grayscale branch:
  \<open>gray_step\<close> is its body.
\<close>

definition gray_step :: "8 word list \<Rightarrow> 8 word list \<Rightarrow> nat \<Rightarrow> 8 word list" where
  "gray_step normalizedData pixelData i =
     (let v = elem normalizedData i; pixelIndex = i * 4
      in pixelData[pixelIndex := v, pixelIndex + 1 := v, pixelIndex + 2 := v,
                   pixelIndex + 3 := 255])"

definition gray_to_rgba :: "8 word list \<Rightarrow> 8 word list \<Rightarrow> 8 word list" where
  "gray_to_rgba normalizedData pixelData =
     foldl (gray_step normalizedData) pixelData [0 ..< length normalizedData]"

text \<open>
  The loop \<open>for (i = 0, j = 0; i < normalizedData.length; i += 3, j += 4)\<close> of the
  multi-band branch: round \<open>k\<close> has \<open>i = 3 * k\<close> and \<open>j = 4 * k\<close>, and \<open>rgb_step\<close> is
  its body.
\<close>

definition rgb_step :: "8 word list \<Rightarrow> 8 word list \<Rightarrow> nat \<Rightarrow> 8 word list" where
  "rgb_step normalizedData pixelData k =
     (let i = 3 * k; j = 4 * k
      in pixelData[j := elem normalizedData i, j + 1 := elem normalizedData (i + 1),
                   j + 2 := elem normalizedData (i + 2), j + 3 := 255])"

definition rgb_to_rgba :: "8 word list \<Rightarrow> 8 word list \<Rightarrow> 8 word list" where
  "rgb_to_rgba normalizedData pixelData =
     foldl (rgb_step normalizedData) pixelData [0 ..< (length normalizedData + 2) div 3]"

definition finish_image ::
  "progress list \<Rightarrow> 8 word list \<Rightarrow> nat \<Rightarrow> nat \<Rightarrow> progress list \<times> (string + ImageData)" where
  "finish_image events pixelData width height =
     (case new_ImageData pixelData width height of
        Inl e \<Rightarrow> (events @ [(Fin 95, ''Creating final image...'', None)], Inl e)
      | Inr finalImageData \<Rightarrow>
          (events @ [(Fin 95, ''Creating final image...'', None),
                     (Fin 100, ''Loading completed!'', None)],
           Inr finalImageData))"

text \<open>
  The part of the inner \<open>try\<close> block that follows \<open>getImage\<close>: the branch on the
  samples per pixel, the read of the rasters, the normalization and the RGBA assembly.
\<close>

definition process_image :: "image \<Rightarrow> progress list \<times> (string + ImageData)" where
  "process_image img =
     (let width = getWidth img;
          height = getHeight img;
          samplesPerPixel = getSamplesPerPixel img;
          bitsPerSample = bitsPerSampleValue (getBitsPerSample img)
      in if samplesPerPixel = 1 then
           (case readRasters img [0] of
              Inl e \<Rightarrow> ([(Fin 85, gray_progressMessage bitsPerSample, None)], Inl e)
            | Inr data \<Rightarrow>
                (let normalizedData = normalizeToUint8Enhanced data bitsPerSample;
                     pixelData = gray_to_rgba normalizedData (replicate (width * height * 4) 0)
                 in finish_image
                      [(Fin 85, gray_progressMessage bitsPerSample, None),
                       (Fin 90, ''Converting to display format...'', None)]
                      pixelData width height))
         else if 3 \<le> samplesPerPixel then
           (case readRasters img [0, 1, 2] of
              Inl e \<Rightarrow>
                ([(Fin 85, rgb_progressMessage bitsPerSample samplesPerPixel, None)], Inl e)
            | Inr data \<Rightarrow>
                (let normalizedData =
                       (if 16 \<le> bitsPerSample then normalizeToUint8Enhanced data bitsPerSample
                        else normalizeToUint8 data bitsPerSample);
                     pixelData = rgb_to_rgba normalizedData (replicate (width * height * 4) 0)
                 in finish_image
                      [(Fin 85, rgb_progressMessage bitsPerSample samplesPerPixel, None),
                       (Fin 90, ''Converting RGB to display format...'', None)]
                      pixelData width height))
         else
           ([], Inl (''Unsupported number of samples per pixel: ''
                      @ toString_radix 10 samplesPerPixel)))"

text \<open>The inner \<open>try\<close> block with its \<open>catch\<close>, which wraps the message.\<close>

definition parse_error :: "string \<Rightarrow> string" where
  "parse_error e = ''Failed to parse TIFF image: '' @ e"

definition parse_tiff :: "env \<Rightarrow> 8 word list \<Rightarrow> progress list \<times> (string + ImageData)" where
  "parse_tiff ev arrayBuffer =
     (case fromArrayBuffer ev arrayBuffer of
        Inl e \<Rightarrow> ([], Inl (parse_error e))
      | Inr tiff \<Rightarrow>
          (case getImage tiff 0 of
             Inl e \<Rightarrow> ([(Fin 75, ''Reading image metadata...'', None)], Inl (parse_error e))
           | Inr img \<Rightarrow>
               (case process_image img of
                  (events, result) \<Rightarrow>
                    ([(Fin 75, ''Reading image metadata...'', None),
                      (Fin 80, ''Extracting pixel data...'', None)] @ events,
                     case result of
                       Inl e \<Rightarrow> Inl (parse_error e)
                     | Inr finalImageData \<Rightarrow> Inr finalImageData))))"

text \<open>The outer \<open>try\<close> block with its \<open>catch\<close>, which wraps the message once more.\<close>

definition load_error :: "string \<Rightarrow> string" where
  "load_error e = ''Failed to load TIFF image: '' @ e"

definition loadAndProcessTiff :: "env \<Rightarrow> string \<Rightarrow> progress list \<times> (string + ImageData)" where
  "loadAndProcessTiff ev url =
     (let events0 = [(Fin 5, ''Downloading TIFF file...'', None)]
      in case fetch ev url of
           Inl e \<Rightarrow> (events0, Inl (load_error e))
         | Inr response \<Rightarrow>
             if \<not> response_ok response then
               (events0, Inl (load_error (''Failed to fetch TIFF: ''
                  @ toString_radix 10 (response_status response) @ '' ''
                  @ response_statusText response)))
             else
               (let totalSize = content_length response;
                    events1 = events0 @ [initial_estimate totalSize]
                in case response_body response of
                     None \<Rightarrow> (events1, Inl (load_error ''Could not get stream reader''))
                   | Some reader \<Rightarrow>
                       (let events2 = events1 @ [(Fin 10, ''Downloading data...'', None)]
                              @ download totalSize (startTime ev) 0 (stream_chunks reader)
                        in case stream_error reader of
                             Some e \<Rightarrow> (events2, Inl (load_error e))
                           | None \<Rightarrow>
                               (let arrayBuffer = concat (map fst (stream_chunks reader));
                                    events3 = events2
                                      @ [(Fin 60, ''Validating TIFF file...'', None)];
                                    validation = validateTiff arrayBuffer
                                in if \<not> isValid validation then
                                     (events3, Inl (load_error (''Invalid TIFF file: ''
                                        @ message validation)))
                                   else
                                     (case parse_tiff ev arrayBuffer of
                                        (events, result) \<Rightarrow>
                                          (events3
                                             @ [(Fin 70, ''Processing TIFF image...'', None)]
                                             @ events,
                                           case result of
                                             Inl e \<Rightarrow> Inl (load_error e)
                                           | Inr finalImageData \<Rightarrow> Inr finalImageData))))))"

section \<open>The TiffViewer effect\<close>

text \<open>
  The tile source handed to the pan/zoom widget; \<open>tile_url\<close> stands for
  \<open>canvas.toDataURL()\<close> of the canvas the image data was put on.
\<close>

record tileSource =
  tile_type :: string
  tile_url :: ImageData
  buildPyramid :: bool
  tile_width :: nat
  tile_height :: nat
  tileSize :: nat
  tileOverlap :: nat
  minLevel :: nat
  maxLevel :: nat

definition customTileSource :: "ImageData \<Rightarrow> tileSource" where
  "customTileSource imageData =
     \<lparr>tile_type = ''image'', tile_url = imageData, buildPyramid = False,
      tile_width = image_width imageData, tile_height = image_height imageData,
      tileSize = min (min (image_width imageData) (image_height imageData)) 512,
      tileOverlap = 0, minLevel = 0, maxLevel = 0\<rparr>"

text \<open>
  What one run of the effect does, in order: the state setters it calls, the creation of
  the widget, the registration of \<open>onLoad\<close>, the call of \<open>onError\<close>, and the timer that
  hides the loading overlay.
\<close>

datatype action =
    SetIsLoading bool
  | SetError "string option"
  | SetLoadingProgress jsnum
  | SetEstimatedTime jsnum
  | SetLoadingStage string
  | CreateViewer tileSource
  | AddOpenHandler
  | OnError string
  | Timeout_SetIsLoading bool

text \<open>
  One run of the effect. \<open>isMounted\<close> is the value of the run's own flag at the time the
  continuation after \<open>loadAndProcessTiff\<close> tests it: the cleanup of the run, which a
  change of \<open>tiffPath\<close> triggers, clears it. \<open>openSeadragon\<close> is the error of the script
  load, if it fails; \<open>canvas_context\<close> and \<open>viewerRef_current\<close> say whether
  \<open>getContext("2d")\<close> and \<open>viewerRef.current\<close> are non-null.
\<close>

record viewer =
  tiffPath :: string
  load_env :: env
  openSeadragon :: "string option"
  canvas_context :: bool
  viewerRef_current :: bool
  isMounted :: bool
  has_onLoad :: bool
  has_onError :: bool

text \<open>The progress callback passed to \<open>loadAndProcessTiff\<close>.\<close>

fun progress_callback :: "progress \<Rightarrow> action list" where
  "progress_callback (progress, stage, estimatedTime) =
     [SetLoadingProgress progress, SetLoadingStage stage] @
     (case estimatedTime of
        Some t \<Rightarrow>
          if t \<noteq> Fin 0 \<and> t \<noteq> NaN \<and> js_gt t (Fin 0) then [SetEstimatedTime t]
          else if js_ge progress (Fin 60) \<and> js_lt progress (Fin 100) then
            [SetEstimatedTime
               (Math_max (Fin 1) (Math_ceil (js_div (js_sub (Fin 100) progress) (Fin 15))))]
          else if js_lt progress (Fin 60) then
            [SetEstimatedTime
               (Math_max (Fin 2) (Math_ceil (js_div (js_sub (Fin 60) progress) (Fin 10))))]
          else [SetEstimatedTime (Fin 1)]
      | None \<Rightarrow>
          if js_ge progress (Fin 60) \<and> js_lt progress (Fin 100) then
            [SetEstimatedTime
               (Math_max (Fin 1) (Math_ceil (js_div (js_sub (Fin 100) progress) (Fin 15))))]
          else if js_lt progress (Fin 60) then
            [SetEstimatedTime
               (Math_max (Fin 2) (Math_ceil (js_div (js_sub (Fin 60) progress) (Fin 10))))]
          else [SetEstimatedTime (Fin 1)])"

text \<open>The \<open>catch\<close> block of \<open>initViewer\<close>.\<close>

definition catch_actions :: "viewer \<Rightarrow> string \<Rightarrow> action list" where
  "catch_actions v err =
     [SetError (Some ''Failed to load TIFF image'')]
     @ (if has_onError v then [OnError err] else [])
     @ [SetIsLoading False]"

definition initViewer :: "viewer \<Rightarrow> action list" where
  "initViewer v =
     (let start =
            [SetIsLoading True, SetError None, SetLoadingProgress (Fin 0),
             SetEstimatedTime (Fin 15), SetLoadingStage ''Initializing...'',
             SetLoadingStage ''Loading OpenSeadragon...'', SetLoadingProgress (Fin 2),
             SetEstimatedTime (Fin 12)]
      in case openSeadragon v of
           Some err \<Rightarrow> start @ catch_actions v err
         | None \<Rightarrow>
             (case loadAndProcessTiff (load_env v) (tiffPath v) of
                (events, result) \<Rightarrow>
                  (let loading = start @ concat (map progress_callback events)
                   in case result of
                        Inl err \<Rightarrow> loading @ catch_actions v err
                      | Inr imageData \<Rightarrow>
                          (let preparing = loading
                                 @ [SetLoadingStage ''Preparing viewer...'',
                                    SetLoadingProgress (Fin 98)]
                           in if \<not> canvas_context v then
                                preparing @ catch_actions v ''Could not create canvas context''
                              else
                                preparing
                                @ (if viewerRef_current v \<and> isMounted v then
                                     [CreateViewer (customTileSource imageData)]
                                     @ (if has_onLoad v then [AddOpenHandler] else [])
                                   else [])
                                @ [SetLoadingStage ''Image loaded successfully!'',
                                   SetLoadingProgress (Fin 100),
                                   Timeout_SetIsLoading False]))))"

text \<open>The body of the effect: the reset of the progress state, then \<open>initViewer\<close>.\<close>

definition effect :: "viewer \<Rightarrow> action list" where
  "effect v =
     [SetLoadingProgress (Fin 0), SetEstimatedTime (Fin 15),
      SetLoadingStage ''Initializing...'']
     @ initViewer v"

text \<open>The values handed to \<open>setLoadingProgress\<close>, in order.\<close>

fun progress_values :: "action list \<Rightarrow> jsnum list" where
  "progress_values [] = []"
| "progress_values (SetLoadingProgress p # as) = p # progress_values as"
| "progress_values (_ # as) = progress_values as"

text \<open>
  The display state of the component, shared by all runs of the effect, and the effect of
  an action on it. The callbacks \<open>onLoad\<close> and \<open>onError\<close> belong to the caller and leave
  it unchanged.
\<close>

record display =
  isLoading :: bool
  error_text :: "string option"
  loadingProgress :: jsnum
  estimatedTime_state :: "jsnum option"
  loadingStage :: string
  viewerInstance :: "tileSource option"

definition initial_display :: display where
  "initial_display =
     \<lparr>isLoading = True, error_text = None, loadingProgress = Fin 0,
      estimatedTime_state = None, loadingStage = ''Initializing...'',
      viewerInstance = None\<rparr>"

fun apply_action :: "display \<Rightarrow> action \<Rightarrow> display" where
  "apply_action s (SetIsLoading b) = s\<lparr>isLoading := b\<rparr>"
| "apply_action s (SetError e) = s\<lparr>error_text := e\<rparr>"
| "apply_action s (SetLoadingProgress p) = s\<lparr>loadingProgress := p\<rparr>"
| "apply_action s (SetEstimatedTime t) = s\<lparr>estimatedTime_state := Some t\<rparr>"
| "apply_action s (SetLoadingStage l) = s\<lparr>loadingStage := l\<rparr>"
| "apply_action s (CreateViewer ts) = s\<lparr>viewerInstance := Some ts\<rparr>"
| "apply_action s AddOpenHandler = s"
| "apply_action s (OnError e) = s"
| "apply_action s (Timeout_SetIsLoading b) = s\<lparr>isLoading := b\<rparr>"

definition run :: "display \<Rightarrow> action list \<Rightarrow> display" where
  "run s as = foldl apply_action s as"

text \<open>The cleanup of a run destroys the widget (and clears the run's \<open>isMounted\<close>).\<close>

definition cleanup :: "display \<Rightarrow> display" where
  "cleanup s = s\<lparr>viewerInstance := None\<rparr>"

text \<open>
  A run of the effect is cut into segments by its \<open>await\<close>s; JavaScript runs each segment
  to its end before anything else. The first segment, up to \<open>await loadOpenSeadragon()\<close>,
  makes the first eleven calls; the later segments make the rest.
\<close>

definition first_segment :: "viewer \<Rightarrow> action list" where
  "first_segment v = take 11 (effect v)"

definition later_segments :: "viewer \<Rightarrow> action list" where
  "later_segments v = drop 11 (effect v)"

text \<open>The actions that touch the widget.\<close>

fun widget_action :: "action \<Rightarrow> bool" where
  "widget_action (CreateViewer ts) = True"
| "widget_action AddOpenHandler = True"
| "widget_action _ = False"

subsection \<open>A load that succeeds\<close>

text \<open>
  A 1 x 1 grayscale 8-bit image with the sample 128, served without a
  \<open>content-length\<close> header in one chunk that holds a little-endian TIFF header.
\<close>

definition sample_image :: image where
  "sample_image =
     \<lparr>getWidth = 1, getHeight = 1, getSamplesPerPixel = 1, getBitsPerSample = Scalar 8,
      readRasters = (\<lambda>samples. Inr (Uint8Array [128]))\<rparr>"

definition sample_env :: env where
  "sample_env =
     \<lparr>fetch = (\<lambda>url. Inr \<lparr>response_ok = True, response_status = 200,
                response_statusText = ''OK'', content_length = None,
                response_body = Some \<lparr>stream_chunks = [([73, 73, 42, 0, 8, 0, 0, 0], 0)],
                                       stream_error = None\<rparr>\<rparr>),
      fromArrayBuffer = (\<lambda>buffer. Inr \<lparr>getImage = (\<lambda>index. Inr sample_image)\<rparr>),
      startTime = 0\<rparr>"

definition sample_viewer :: viewer where
  "sample_viewer =
     \<lparr>tiffPath = ''/file.tif'', load_env = sample_env, openSeadragon = None,
      canvas_context = True, viewerRef_current = True, isMounted = True,
      has_onLoad = True, has_onError = True\<rparr>"

section \<open>The normalization rules as the specification words them\<close>

text \<open>
  The sample values of a \<open>Uint16Array\<close> and the finite sample values of a
  \<open>Float32Array\<close>, as rationals.
\<close>

definition samples16 :: "16 word list \<Rightarrow> rat list" where
  "samples16 data = map (\<lambda>d. of_nat (unat d)) data"

fun finite_values :: "jsnum list \<Rightarrow> rat list" where
  "finite_values [] = []"
| "finite_values (Fin v # xs) = v # finite_values xs"
| "finite_values (_ # xs) = finite_values xs"

text \<open>
  \<open>round(clamp(((v - min) / (max - min)) * 255, 0, 255))\<close>, every operator a double
  operation, \<open>round\<close> rounding half up.
\<close>

definition stretch :: "rat \<Rightarrow> rat \<Rightarrow> rat \<Rightarrow> int" where
  "stretch mn mx v =
     \<lfloor>max 0 (min 255 (fl64 (fl64 (fl64 (v - mn) / fl64 (mx - mn)) * 255))) + 1 / 2\<rfloor>"

text \<open>\<open>round((min / ((1 << 16) - 1)) * 255)\<close>, the fallback for uniform 16-bit integer data.\<close>

definition fallback16 :: "rat \<Rightarrow> int" where
  "fallback16 mn = \<lfloor>fl64 (fl64 (mn / 65535) * 255) + 1 / 2\<rfloor>"

text \<open>\<open>round(255)\<close> when \<open>|min| > 1\<close>, else \<open>round(|min| * 255)\<close>: the fallback for uniform
  float data.\<close>

definition fallback32 :: "rat \<Rightarrow> int" where
  "fallback32 mn = \<lfloor>(if 1 < \<bar>mn\<bar> then 255 else fl64 (\<bar>mn\<bar> * 255)) + 1 / 2\<rfloor>"

text \<open>
  The percent reported for a chunk when the total size \<open>n\<close> is known:
  \<open>10 + min((downloaded / n) * 50, 50)\<close>, in double arithmetic.
\<close>

definition known_percent :: "nat \<Rightarrow> nat \<Rightarrow> rat" where
  "known_percent n downloaded =
     fl64 (10 + min (fl64 (fl64 (of_nat downloaded / of_nat n) * 50)) 50)"

text \<open>
  The percents of a list of progress calls are finite, in non-decreasing order, and all
  between \<open>lo\<close> and \<open>hi\<close>.
\<close>

definition percents_within :: "rat \<Rightarrow> rat \<Rightarrow> progress list \<Rightarrow> bool" where
  "percents_within lo hi events =
     (\<exists>ps. map fst events = map Fin ps \<and> sorted ps \<and> (\<forall>p \<in> set ps. lo \<le> p \<and> p \<le> hi))"

text \<open>
  The channel selection policy: channel 0 only for one sample per pixel, channels 0, 1, 2
  for three or more.
\<close>

definition channels_read :: "nat \<Rightarrow> nat list" where
  "channels_read samplesPerPixel = (if samplesPerPixel = 1 then [0] else [0, 1, 2])"

section \<open>Properties\<close>

subsection \<open>Rounding to the nearest double\<close>

text \<open>
  \<open>ilog2\<close> is the binary exponent of a positive rational; \<open>fl64\<close> keeps the sign,
  never rounds a non-zero value to zero, is monotone, and is exact on the integers below
  \<open>2 ^ 53\<close>.
\<close>

lemma bitlen_ge1: "0 < n \<Longrightarrow> 1 \<le> bitlen n"
  using bitlen_nonneg [of n] bitlen_eq_zero_iff [of n] by linarith

lemma ilog2_lower:
  assumes "0 < a"
  shows "2 powi (ilog2 a) \<le> a"
proof (cases "1 \<le> a")
  case True
  define n where "n = \<lfloor>a\<rfloor>"
  have n: "0 < n" "of_int n \<le> a" using True by (auto simp: n_def)
  have b: "1 \<le> bitlen n" using n(1) by (rule bitlen_ge1)
  have "(2::rat) powi (bitlen n - 1) = of_int (2 ^ nat (bitlen n - 1))"
    using b by (simp add: power_int_def)
  also have "\<dots> \<le> of_int n"
    using bitlen_bounds [OF n(1)] by (simp only: of_int_le_iff)
  also have "\<dots> \<le> a" by (rule n(2))
  finally show ?thesis using True by (simp add: ilog2_def n_def)
next
  case False
  define y where "y = 1 / a"
  define m where "m = \<lceil>y\<rceil> - 1"
  have y: "1 < y" using False assms by (simp add: y_def)
  have m: "0 < m" "y \<le> of_int m + 1" using y by (auto simp: m_def le_of_int_ceiling less_ceiling_iff)
  have b: "1 \<le> bitlen m" using m(1) by (rule bitlen_ge1)
  have "y \<le> of_int (m + 1)" using m(2) by simp
  also have "\<dots> \<le> of_int (2 ^ nat (bitlen m))"
    using bitlen_bounds [OF m(1)] by (simp only: of_int_le_iff) linarith
  finally have "y \<le> 2 ^ nat (bitlen m)" by simp
  then have "1 / 2 ^ nat (bitlen m) \<le> a"
    using assms by (simp add: y_def field_simps)
  moreover have "(2::rat) powi (- bitlen m) = 1 / 2 ^ nat (bitlen m)"
    using b by (simp add: power_int_def field_simps)
  ultimately show ?thesis using False by (simp add: ilog2_def m_def y_def)
qed

lemma ilog2_upper:
  assumes "0 < a"
  shows "a < 2 powi (ilog2 a + 1)"
proof (cases "1 \<le> a")
  case True
  define n where "n = \<lfloor>a\<rfloor>"
  have n: "0 < n" "a < of_int (n + 1)"
    using True floor_correct [of a] by (auto simp: n_def)
  have b: "1 \<le> bitlen n" using n(1) by (rule bitlen_ge1)
  have "of_int (n + 1) \<le> (of_int (2 ^ nat (bitlen n)) :: rat)"
    using bitlen_bounds [OF n(1)] by (simp only: of_int_le_iff) linarith
  also have "\<dots> = 2 powi (bitlen n)"
    using b by (simp add: power_int_def)
  finally show ?thesis using True n(2) by (simp add: ilog2_def n_def)
next
  case False
  define y where "y = 1 / a"
  define m where "m = \<lceil>y\<rceil> - 1"
  have y: "1 < y" using False assms by (simp add: y_def)
  have m: "0 < m" "of_int m < y"
    using y ceiling_correct [of y] by (auto simp: m_def less_ceiling_iff)
  have b: "1 \<le> bitlen m" using m(1) by (rule bitlen_ge1)
  have "(of_int (2 ^ nat (bitlen m - 1)) :: rat) \<le> of_int m"
    using bitlen_bounds [OF m(1)] by (simp only: of_int_le_iff)
  also have "\<dots> < y" by (rule m(2))
  finally have "2 ^ nat (bitlen m - 1) < y" by simp
  then have "a < 1 / 2 ^ nat (bitlen m - 1)"
    using assms by (simp add: y_def field_simps)
  moreover have "(2::rat) powi (- bitlen m + 1) = 1 / 2 ^ nat (bitlen m - 1)"
    using b by (simp add: power_int_def field_simps nat_diff_distrib)
  ultimately show ?thesis using False by (simp add: ilog2_def m_def y_def)
qed


lemma rne_of_int: "rne (of_int k) = k"
  by (simp add: rne_def)

lemma rne_bounds: "\<lfloor>x\<rfloor> \<le> rne x" "rne x \<le> \<lceil>x\<rceil>"
proof -
  show "\<lfloor>x\<rfloor> \<le> rne x" by (simp add: rne_def Let_def)
  have "x - of_int \<lfloor>x\<rfloor> = 0 \<or> \<lfloor>x\<rfloor> + 1 \<le> \<lceil>x\<rceil>"
    by (metis ceiling_altdef eq_iff_diff_eq_0 order_refl)
  then show "rne x \<le> \<lceil>x\<rceil>"
    by (auto simp add: rne_def Let_def ceiling_altdef)
qed

lemma rne_mono:
  assumes "x \<le> y"
  shows "rne x \<le> rne y"
proof (cases "\<lfloor>x\<rfloor> = \<lfloor>y\<rfloor>")
  case True
  have "x - of_int \<lfloor>x\<rfloor> \<le> y - of_int \<lfloor>y\<rfloor>" using assms True by simp
  then show ?thesis using True by (auto simp add: rne_def Let_def)
next
  case False
  then have "\<lfloor>x\<rfloor> < \<lfloor>y\<rfloor>" using floor_mono [OF assms] by linarith
  then have "\<lceil>x\<rceil> \<le> \<lfloor>y\<rfloor>"
    by (metis ceiling_le_iff floor_less_iff less_eq_rat_def of_int_floor_le order.trans linorder_not_le)
  then show ?thesis using rne_bounds(2) [of x] rne_bounds(1) [of y] by linarith
qed

lemma powi2_less_imp:
  assumes "(2::rat) powi m < 2 powi n"
  shows "m < n"
proof (rule ccontr)
  assume "\<not> m < n"
  then have "n \<le> m" by simp
  then have "(2::rat) powi n \<le> 2 powi m" by (simp add: power_int_increasing)
  with assms show False by simp
qed

lemma fl64_zero: "fl64 0 = 0"
  by (simp add: fl64_def)

lemma fl64_pos_eq:
  "0 < a \<Longrightarrow> fl64 a = of_int (rne (a / 2 powi (ilog2 a - 52))) * 2 powi (ilog2 a - 52)"
  by (simp add: fl64_def Let_def)

lemma fl64_minus: "fl64 (- x) = - fl64 x"
  by (simp add: fl64_def Let_def sgn_minus)

lemma scaled_bounds:
  assumes "0 < a"
  shows "2 ^ 52 \<le> a / 2 powi (ilog2 a - 52)" and "a / 2 powi (ilog2 a - 52) < 2 ^ 53"
proof -
  let ?e = "ilog2 a"
  have u: "(0::rat) < 2 powi (?e - 52)" by simp
  have lo: "(2::rat) powi (?e - 52) * 2 ^ 52 = 2 powi ?e"
    using power_int_add [of "2::rat" "?e - 52" 52] by simp
  have hi: "(2::rat) powi (?e - 52) * 2 ^ 53 = 2 powi (?e + 1)"
    using power_int_add [of "2::rat" "?e - 52" 53] by (simp add: add.commute)
  show "2 ^ 52 \<le> a / 2 powi (?e - 52)"
    using ilog2_lower [OF assms] u lo by (simp add: pos_le_divide_eq mult.commute)
  show "a / 2 powi (?e - 52) < 2 ^ 53"
    using ilog2_upper [OF assms] u hi by (simp add: pos_divide_less_eq mult.commute)
qed

lemma rne_scaled_bounds:
  assumes "0 < a"
  shows "2 ^ 52 \<le> rne (a / 2 powi (ilog2 a - 52))" and "rne (a / 2 powi (ilog2 a - 52)) \<le> 2 ^ 53"
proof -
  let ?s = "a / 2 powi (ilog2 a - 52)"
  have "(2 ^ 52 :: int) \<le> \<lfloor>?s\<rfloor>"
    using scaled_bounds(1) [OF assms] by (simp add: le_floor_iff)
  then show "2 ^ 52 \<le> rne ?s" using rne_bounds(1) [of ?s] by linarith
  have "\<lceil>?s\<rceil> \<le> (2 ^ 53 :: int)"
    using scaled_bounds(2) [OF assms] by (simp add: ceiling_le_iff)
  then show "rne ?s \<le> 2 ^ 53" using rne_bounds(2) [of ?s] by linarith
qed

lemma fl64_bounds:
  assumes "0 < a"
  shows "2 powi (ilog2 a) \<le> fl64 a" and "fl64 a \<le> 2 powi (ilog2 a + 1)"
proof -
  let ?e = "ilog2 a"
  let ?u = "(2::rat) powi (?e - 52)"
  let ?r = "rne (a / ?u)"
  have u: "0 < ?u" by simp
  have lo: "2 ^ 52 * ?u = 2 powi ?e"
    using power_int_add [of "2::rat" "?e - 52" 52] by (simp add: mult.commute)
  have hi: "2 ^ 53 * ?u = 2 powi (?e + 1)"
    using power_int_add [of "2::rat" "?e - 52" 53] by (simp add: mult.commute add.commute)
  have "(of_int (2 ^ 52) :: rat) \<le> of_int ?r"
    using rne_scaled_bounds(1) [OF assms] by (simp only: of_int_le_iff)
  then have "of_int (2 ^ 52) * ?u \<le> of_int ?r * ?u"
    by (rule mult_right_mono) (simp add: less_imp_le [OF u])
  moreover have "of_int (2 ^ 52) * ?u = 2 powi ?e" using lo by simp
  moreover have "of_int ?r * ?u = fl64 a" by (simp add: fl64_pos_eq [OF assms])
  ultimately show "2 powi ?e \<le> fl64 a" by (simp only:)
  have "(of_int ?r :: rat) \<le> of_int (2 ^ 53)"
    using rne_scaled_bounds(2) [OF assms] by (simp only: of_int_le_iff)
  then have "of_int ?r * ?u \<le> of_int (2 ^ 53) * ?u"
    by (rule mult_right_mono) (simp add: less_imp_le [OF u])
  moreover have "of_int (2 ^ 53) * ?u = 2 powi (?e + 1)" using hi by simp
  moreover have "of_int ?r * ?u = fl64 a" by (simp add: fl64_pos_eq [OF assms])
  ultimately show "fl64 a \<le> 2 powi (?e + 1)" by (simp only:)
qed

lemma fl64_pos: "0 < a \<Longrightarrow> 0 < fl64 a"
  using fl64_bounds(1) [of a] zero_less_power_int [of "2::rat" "ilog2 a"]
  by (meson less_le_trans zero_less_numeral zero_less_power_int)

lemma fl64_pos_iff: "0 < fl64 x \<longleftrightarrow> 0 < x"
proof (cases "0 < x")
  case True
  then show ?thesis by (simp add: fl64_pos)
next
  case False
  show ?thesis
  proof (cases "x = 0")
    case True
    then show ?thesis by (simp add: fl64_zero)
  next
    case False
    with \<open>\<not> 0 < x\<close> have "0 < - x" by simp
    then have "0 < fl64 (- x)" by (rule fl64_pos)
    then show ?thesis using \<open>\<not> 0 < x\<close> by (simp add: fl64_minus)
  qed
qed

lemma fl64_mono_pos:
  assumes "0 < a" "a \<le> b"
  shows "fl64 a \<le> fl64 b"
proof -
  have b: "0 < b" using assms by simp
  have "(2::rat) powi (ilog2 a) < 2 powi (ilog2 b + 1)"
    using ilog2_lower [OF assms(1)] ilog2_upper [OF b] assms(2) by linarith
  then have le: "ilog2 a \<le> ilog2 b"
    using powi2_less_imp [of "ilog2 a" "ilog2 b + 1"] by simp
  show ?thesis
  proof (cases "ilog2 a = ilog2 b")
    case True
    have "a / 2 powi (ilog2 b - 52) \<le> b / 2 powi (ilog2 b - 52)"
      using assms(2) by (simp add: divide_right_mono)
    then have "rne (a / 2 powi (ilog2 b - 52)) \<le> rne (b / 2 powi (ilog2 b - 52))"
      by (rule rne_mono)
    then have "(of_int (rne (a / 2 powi (ilog2 b - 52))) :: rat) * 2 powi (ilog2 b - 52)
        \<le> of_int (rne (b / 2 powi (ilog2 b - 52))) * 2 powi (ilog2 b - 52)"
      by (simp add: mult_right_mono)
    then show ?thesis by (simp add: fl64_pos_eq [OF assms(1)] fl64_pos_eq [OF b] True)
  next
    case False
    with le have "ilog2 a + 1 \<le> ilog2 b" by simp
    then have "(2::rat) powi (ilog2 a + 1) \<le> 2 powi (ilog2 b)"
      by (simp add: power_int_increasing)
    then show ?thesis
      using fl64_bounds(2) [OF assms(1)] fl64_bounds(1) [OF b] by linarith
  qed
qed

lemma fl64_mono:
  assumes "x \<le> y"
  shows "fl64 x \<le> fl64 y"
proof -
  consider "0 < x" | "x \<le> 0" "0 \<le> y" | "y < 0" using assms by linarith
  then show ?thesis
  proof cases
    case 1
    then show ?thesis using assms by (rule fl64_mono_pos)
  next
    case 2
    have "fl64 x \<le> 0" using 2(1) fl64_pos_iff [of x] by linarith
    moreover have "0 \<le> fl64 y"
      using 2(2) fl64_pos [of y] by (cases "y = 0") (auto simp: fl64_zero less_le)
    ultimately show ?thesis by linarith
  next
    case 3
    then have "fl64 (- y) \<le> fl64 (- x)" using assms by (intro fl64_mono_pos) auto
    then show ?thesis by (simp add: fl64_minus)
  qed
qed

lemma fl64_of_int:
  assumes "\<bar>n\<bar> < 2 ^ 53"
  shows "fl64 (of_int n) = of_int n"
proof (cases "n = 0")
  case True
  then show ?thesis by (simp add: fl64_zero)
next
  case False
  define a :: rat where "a = of_int \<bar>n\<bar>"
  have a: "0 < a" "a < 2 ^ 53" using False assms by (auto simp: a_def) 
  have "(2::rat) powi (ilog2 a) < 2 powi 53"
    using ilog2_lower [OF a(1)] a(2) by simp
  then have e: "ilog2 a \<le> 52"
    using powi2_less_imp [of "ilog2 a" 53] by simp
  define k where "k = nat (52 - ilog2 a)"
  have u: "(2::rat) powi (ilog2 a - 52) = 1 / 2 ^ k"
    using e by (simp add: power_int_def k_def field_simps)
  have "a / 2 powi (ilog2 a - 52) = of_int (\<bar>n\<bar> * 2 ^ k)"
    unfolding u by (simp add: a_def)
  then have "rne (a / 2 powi (ilog2 a - 52)) = \<bar>n\<bar> * 2 ^ k"
    by (simp only: rne_of_int)
  then have "fl64 a = of_int (\<bar>n\<bar> * 2 ^ k) * (1 / 2 ^ k)"
    unfolding fl64_pos_eq [OF a(1)] u by (simp only:)
  then have "fl64 a = a"
    by (simp add: a_def)
  then show ?thesis
    using fl64_minus [of a] by (cases "0 \<le> n") (auto simp: a_def abs_if)
qed

lemma fl64_dyadic:
  assumes "\<bar>n\<bar> < 2 ^ 53"
  shows "fl64 (of_int n / 2 ^ j) = of_int n / 2 ^ j"
proof (cases "n = 0")
  case True
  then show ?thesis by (simp add: fl64_zero)
next
  case False
  define a :: rat where "a = of_int \<bar>n\<bar> / 2 ^ j"
  have a: "0 < a" using False by (simp add: a_def)
  have "a * 2 ^ j < 2 ^ 53 " using assms by (simp add: a_def)
  then have "a < 2 ^ 53 / 2 ^ j" by (simp add: pos_less_divide_eq)
  also have "\<dots> = 2 powi (53 - int j)"
    by (simp add: power_int_diff)
  finally have "(2::rat) powi (ilog2 a) < 2 powi (53 - int j)"
    using ilog2_lower [OF a] by simp
  then have e: "ilog2 a \<le> 52 - int j"
    using powi2_less_imp [of "ilog2 a" "53 - int j"] by simp
  define k where "k = nat (52 - int j - ilog2 a)"
  have u: "(2::rat) powi (ilog2 a - 52) = 1 / (2 ^ k * 2 ^ j)"
  proof -
    have "ilog2 a - 52 = - int (k + j)" using e by (simp add: k_def)
    then have "(2::rat) powi (ilog2 a - 52) = 2 powi (- int (k + j))" by simp
    also have "\<dots> = 1 / 2 ^ (k + j)"
      by (simp only: power_int_minus power_int_of_nat inverse_eq_divide)
    finally show ?thesis by (simp add: power_add)
  qed
  have "a / 2 powi (ilog2 a - 52) = of_int (\<bar>n\<bar> * 2 ^ k)"
    unfolding u by (simp add: a_def)
  then have "rne (a / 2 powi (ilog2 a - 52)) = \<bar>n\<bar> * 2 ^ k"
    by (simp only: rne_of_int)
  then have "fl64 a = of_int (\<bar>n\<bar> * 2 ^ k) * (1 / (2 ^ k * 2 ^ j))"
    unfolding fl64_pos_eq [OF a] u by (simp only:)
  then have "fl64 a = a"
    by (simp add: a_def)
  then show ?thesis
    using fl64_minus [of a] by (cases "0 \<le> n") (auto simp: a_def abs_if)
qed

lemma floor_fl64_div_1000:
  assumes "0 \<le> e" "e < 2 ^ 42"
  shows "\<lfloor>fl64 (of_int e / 1000)\<rfloor> = e div 1000"
proof -
  define k where "k = e div 1000"
  define r where "r = e mod 1000"
  have e: "e = 1000 * k + r" by (simp add: k_def r_def)
  have m: "0 \<le> r" "r \<le> 999"
    using pos_mod_bound [of 1000 e] by (auto simp: r_def)
  have k0: "0 \<le> k" using assms(1) by (simp add: k_def pos_imp_zdiv_nonneg_iff)
  have k: "0 \<le> k" "k < 2 ^ 42" using k0 e m assms(2) by linarith+
  have lo: "(of_int k :: rat) \<le> of_int e / 1000"
  proof -
    have "1000 * k \<le> e" using e m(1) by linarith
    then have "(of_int (1000 * k) :: rat) \<le> of_int e" by (simp only: of_int_le_iff)
    then show ?thesis by simp
  qed
  have hi: "(of_int e :: rat) / 1000 \<le> of_int (1024 * k + 1023) / 2 ^ 10"
  proof -
    have "1024 * e = 1024000 * k + 1024 * r" unfolding e by simp
    then have "1024 * e \<le> 1000 * (1024 * k + 1023)" using m(2) by simp
    then have "(of_int (1024 * e) :: rat) \<le> of_int (1000 * (1024 * k + 1023))"
      by (simp only: of_int_le_iff)
    then show ?thesis by (simp add: field_simps)
  qed
  have "fl64 (of_int k) \<le> fl64 (of_int e / 1000)" by (rule fl64_mono [OF lo])
  moreover have "fl64 (of_int k) = of_int k"
    using k by (intro fl64_of_int) simp
  ultimately have 1: "of_int k \<le> fl64 (of_int e / 1000)" by simp
  have "fl64 (of_int e / 1000) \<le> fl64 (of_int (1024 * k + 1023) / 2 ^ 10)"
    by (rule fl64_mono [OF hi])
  moreover have "fl64 (of_int (1024 * k + 1023) / 2 ^ 10) = of_int (1024 * k + 1023) / 2 ^ 10"
    using k by (intro fl64_dyadic) simp
  moreover have "(of_int (1024 * k + 1023) :: rat) / 2 ^ 10 < of_int k + 1"
    by (simp add: field_simps)
  ultimately have 2: "fl64 (of_int e / 1000) < of_int k + 1" by simp
  from 1 2 show ?thesis unfolding k_def [symmetric] by (simp add: floor_unique)
qed


lemma Math_max_Fin: "Math_max (Fin a) (Fin b) = Fin (max a b)"
  by (simp add: Math_max_def max_def)

lemma Math_min_Fin: "Math_min (Fin a) (Fin b) = Fin (min a b)"
  by (simp add: Math_min_def min_def)

subsection \<open>Contrast stretch of 16-bit and float data\<close>

lemma fold_min_Min: "fold min vs v = Min (insert v (set vs))"
  using Min.set_eq_fold [of v vs] by simp

lemma fold_max_Max: "fold max vs v = Max (insert v (set vs))"
  using Max.set_eq_fold [of v vs] by simp

lemma range16_fold:
  "range16 ds (Fin a, Fin b) =
     (Fin (fold min (samples16 ds) a), Fin (fold max (samples16 ds) b))"
  by (induction ds arbitrary: a b)
     (auto simp add: samples16_def u16num_def js_gt_def min_def max_def)

lemma range16_Min_Max:
  assumes "data \<noteq> []"
  shows "range16 (drop 1 data) (read16 data 0, read16 data 0) =
     (Fin (Min (set (samples16 data))), Fin (Max (set (samples16 data))))"
proof -
  obtain d ds where data: "data = d # ds" using assms by (cases data) auto
  have "set (samples16 data) = set (of_nat (unat d) # samples16 ds)"
    by (simp add: data samples16_def)
  then show ?thesis
    by (simp add: data read16_def u16num_def range16_fold fold_min_Min fold_max_Max)
qed

lemma range32_fold:
  "range32 xs (Fin a, Fin b) =
     (Fin (fold min (finite_values xs) a), Fin (fold max (finite_values xs) b))"
proof (induction xs arbitrary: a b)
  case Nil
  then show ?case by simp
next
  case (Cons x xs)
  then show ?case
    by (cases x) (auto simp add: js_gt_def min_def max_def)
qed

lemma range32_init:
  "range32 xs (PInf, NInf) =
     (case finite_values xs of
        [] \<Rightarrow> (PInf, NInf)
      | v # vs \<Rightarrow> (Fin (fold min vs v), Fin (fold max vs v)))"
proof (induction xs)
  case Nil
  then show ?case by simp
next
  case (Cons x xs)
  then show ?case
    by (cases x) (simp_all add: js_gt_def range32_fold)
qed

lemma range32_Min_Max:
  assumes "finite_values xs \<noteq> []"
  shows "range32 xs (PInf, NInf) =
     (Fin (Min (set (finite_values xs))), Fin (Max (set (finite_values xs))))"
proof -
  obtain v vs where fv: "finite_values xs = v # vs" using assms by (cases "finite_values xs") auto
  show ?thesis
    by (simp add: range32_init fv fold_min_Min fold_max_Max)
qed

lemma range32_none:
  assumes "finite_values xs = []"
  shows "range32 xs (PInf, NInf) = (PInf, NInf)"
  by (simp add: range32_init assms)

lemma js_sub_Fin: "js_sub (Fin a) (Fin b) = Fin (fl64 (a - b))"
  by (simp add: js_sub_def)

lemma stretch_range: "0 \<le> stretch mn mx v" "stretch mn mx v \<le> 255"
  unfolding stretch_def by linarith+

lemma uint_word8_of_int: "0 \<le> k \<Longrightarrow> k \<le> 255 \<Longrightarrow> uint (word_of_int k :: 8 word) = k"
  by (simp add: uint_word_of_int take_bit_int_eq_self)

lemma stretch_sample_Fin:
  assumes "0 < fl64 (mx - mn)"
  shows "stretch_sample (Fin mn) (Fin (fl64 (mx - mn))) (Fin v) = word_of_int (stretch mn mx v)"
  using assms
  by (simp add: stretch_sample_def stretch_def js_sub_Fin Math_min_def Math_max_def
      min_def max_def Let_def)


lemma normalize16_stretch:
  assumes "data \<noteq> []"
    and "Min (set (samples16 data)) < Max (set (samples16 data))"
  shows "normalizeToUint8Enhanced (Uint16Array data) bps =
     map (\<lambda>v. word_of_int (stretch (Min (set (samples16 data))) (Max (set (samples16 data))) v))
       (samples16 data)"
proof -
  let ?mn = "Min (set (samples16 data))" and ?mx = "Max (set (samples16 data))"
  have r: "0 < fl64 (?mx - ?mn)" using assms(2) by (simp add: fl64_pos_iff)
  have "normalizeToUint8Enhanced (Uint16Array data) bps =
      map (\<lambda>d. stretch_sample (Fin ?mn) (Fin (fl64 (?mx - ?mn))) (u16num d)) data"
    unfolding normalizeToUint8Enhanced.simps range16_Min_Max [OF assms(1)]
    using r by (simp add: js_sub_Fin js_gt_def)
  also have "\<dots> = map (\<lambda>v. word_of_int (stretch ?mn ?mx v)) (samples16 data)"
    unfolding u16num_def stretch_sample_Fin [OF r] by (simp add: samples16_def comp_def)
  finally show ?thesis .
qed

lemma normalize32_stretch:
  assumes "finite_values data \<noteq> []"
    and "Min (set (finite_values data)) < Max (set (finite_values data))"
  shows "normalizeToUint8Enhanced (Float32Array data) bps =
     map (\<lambda>d. case d of
            Fin v \<Rightarrow> word_of_int
              (stretch (Min (set (finite_values data))) (Max (set (finite_values data))) v)
          | _ \<Rightarrow> 0) data"
proof -
  let ?mn = "Min (set (finite_values data))" and ?mx = "Max (set (finite_values data))"
  have r: "0 < fl64 (?mx - ?mn)" using assms(2) by (simp add: fl64_pos_iff)
  have "(if isFinite d then stretch_sample (Fin ?mn) (Fin (fl64 (?mx - ?mn))) d else 0) =
      (case d of Fin v \<Rightarrow> word_of_int (stretch ?mn ?mx v) | _ \<Rightarrow> 0)" for d
    using r by (cases d) (simp_all add: stretch_sample_Fin)
  then show ?thesis
    unfolding normalizeToUint8Enhanced.simps range32_Min_Max [OF assms(1)]
    using r by (simp add: js_sub_Fin js_gt_def)
qed

lemma stretch_example:
  "stretch 100 400 100 = 0" "stretch 100 400 200 = 85"
  "stretch 100 400 300 = 170" "stretch 100 400 400 = 255"
  "stretch 0 1 0 = 0" "stretch 0 1 1 = 255"
  by code_simp+

text \<open>
  C1. For 16-bit (\<open>Uint16Array\<close>) and 32-bit float (\<open>Float32Array\<close>) samples with at
  least two distinct finite values, i.e. \<open>max > min\<close> for the smallest and largest finite
  value of the whole sample sequence, the normalizer maps every finite sample \<open>v\<close> to
  \<open>round(clamp(((v - min) / (max - min)) * 255, 0, 255))\<close> and every non-finite sample to
  0; the samples \<open>[100, 200, 300, 400]\<close> at 16 bits give \<open>[0, 85, 170, 255]\<close>.
\<close>

theorem stretch_normalization:
  "(data16 \<noteq> [] \<and> Min (set (samples16 data16)) < Max (set (samples16 data16)) \<longrightarrow>
      map uint (normalizeToUint8Enhanced (Uint16Array data16) bps) =
        map (stretch (Min (set (samples16 data16))) (Max (set (samples16 data16))))
          (samples16 data16))
   \<and> (finite_values data32 \<noteq> []
        \<and> Min (set (finite_values data32)) < Max (set (finite_values data32)) \<longrightarrow>
      map uint (normalizeToUint8Enhanced (Float32Array data32) bps') =
        map (\<lambda>d. case d of
               Fin v \<Rightarrow> stretch (Min (set (finite_values data32)))
                          (Max (set (finite_values data32))) v
             | _ \<Rightarrow> 0) data32)
   \<and> normalizeToUint8Enhanced (Uint16Array [100, 200, 300, 400]) 16 = [0, 85, 170, 255]"
proof (intro conjI impI)
  assume a: "data16 \<noteq> [] \<and> Min (set (samples16 data16)) < Max (set (samples16 data16))"
  show "map uint (normalizeToUint8Enhanced (Uint16Array data16) bps) =
        map (stretch (Min (set (samples16 data16))) (Max (set (samples16 data16))))
          (samples16 data16)"
    unfolding normalize16_stretch [OF conjunct1 [OF a] conjunct2 [OF a]]
    by (simp add: comp_def uint_word8_of_int stretch_range)
next
  assume a: "finite_values data32 \<noteq> []
        \<and> Min (set (finite_values data32)) < Max (set (finite_values data32))"
  have "uint (case d of Fin v \<Rightarrow> word_of_int (stretch mn mx v) | _ \<Rightarrow> (0 :: 8 word)) =
      (case d of Fin v \<Rightarrow> stretch mn mx v | _ \<Rightarrow> 0)" for d mn mx
    by (cases d) (simp_all add: uint_word8_of_int stretch_range)
  then show "map uint (normalizeToUint8Enhanced (Float32Array data32) bps') =
        map (\<lambda>d. case d of
               Fin v \<Rightarrow> stretch (Min (set (finite_values data32)))
                          (Max (set (finite_values data32))) v
             | _ \<Rightarrow> 0) data32"
    unfolding normalize32_stretch [OF conjunct1 [OF a] conjunct2 [OF a]]
    by (simp add: comp_def)
next
  have s: "samples16 [100, 200, 300, 400] = [100, 200, 300, 400]"
    by (simp add: samples16_def)
  have "normalizeToUint8Enhanced (Uint16Array [100, 200, 300, 400]) 16 =
      map (\<lambda>v. word_of_int (stretch 100 400 v)) [100, 200, 300, 400]"
    using normalize16_stretch [of "[100, 200, 300, 400]" 16] by (simp add: s)
  then show "normalizeToUint8Enhanced (Uint16Array [100, 200, 300, 400]) 16 = [0, 85, 170, 255]"
    by (simp add: stretch_example)
qed

theorem stretch_normalization_witness:
  "map uint (normalizeToUint8Enhanced (Uint16Array [100, 200, 300, 400]) 16) = [0, 85, 170, 255]
   \<and> map uint (normalizeToUint8Enhanced (Float32Array [Fin 0, NaN, Fin 1, PInf]) 32)
       = [0, 0, 255, 0]"
proof -
  have s: "samples16 [100, 200, 300, 400] = [100, 200, 300, 400]"
    by (simp add: samples16_def)
  show ?thesis
    using stretch_normalization [of "[100, 200, 300, 400]" 16 "[Fin 0, NaN, Fin 1, PInf]" 32]
    by (simp add: s stretch_example)
qed

subsection \<open>Uniform and non-finite data\<close>

lemma shl1_16: "shl1 16 = 65536"
  by (simp add: shl1_def)

lemma fl64_nonneg: "0 \<le> x \<Longrightarrow> 0 \<le> fl64 x"
  using fl64_mono [of 0 x] by (simp add: fl64_zero)

lemma fl64_le_255: "x \<le> 255 \<Longrightarrow> fl64 x \<le> 255"
  using fl64_mono [of x 255] fl64_of_int [of 255] by simp

lemma fl64_le_1: "x \<le> 1 \<Longrightarrow> fl64 x \<le> 1"
  using fl64_mono [of x 1] fl64_of_int [of 1] by simp

lemma fallback16_range:
  assumes "0 \<le> m" "m \<le> 65535"
  shows "0 \<le> fallback16 m" "fallback16 m \<le> 255"
proof -
  have q: "0 \<le> fl64 (m / 65535)" "fl64 (m / 65535) \<le> 1"
    using assms by (simp_all add: fl64_nonneg fl64_le_1)
  then have "0 \<le> fl64 (fl64 (m / 65535) * 255)" "fl64 (fl64 (m / 65535) * 255) \<le> 255"
    by (simp_all add: fl64_nonneg fl64_le_255)
  then show "0 \<le> fallback16 m" "fallback16 m \<le> 255"
    unfolding fallback16_def by linarith+
qed

lemma fallback32_range: "0 \<le> fallback32 m" "fallback32 m \<le> 255"
proof -
  have "0 \<le> fl64 (\<bar>m\<bar> * 255)" by (simp add: fl64_nonneg)
  moreover have "\<not> 1 < \<bar>m\<bar> \<Longrightarrow> fl64 (\<bar>m\<bar> * 255) \<le> 255"
    by (rule fl64_le_255) simp
  ultimately show "0 \<le> fallback32 m" "fallback32 m \<le> 255"
    unfolding fallback32_def by (auto simp: floor_le_iff le_floor_iff) 
qed

lemma samples16_range:
  assumes "data \<noteq> []"
  shows "0 \<le> Min (set (samples16 data))" "Min (set (samples16 data)) \<le> 65535"
proof -
  have b: "0 \<le> v \<and> v \<le> 65535" if v: "v \<in> set (samples16 data)" for v
  proof -
    obtain d :: "16 word" where d: "v = of_nat (unat d)"
      using v by (auto simp: samples16_def)
    have "unat d \<le> 65535" using unsigned_less [of d, where 'a = nat] by simp
    then have "(of_nat (unat d) :: rat) \<le> of_nat 65535" by (simp only: of_nat_le_iff)
    then show ?thesis unfolding d by (simp del: of_nat_unat)
  qed
  have "Min (set (samples16 data)) \<in> set (samples16 data)"
    using assms by (intro Min_in) (simp_all add: samples16_def)
  then show "0 \<le> Min (set (samples16 data))" "Min (set (samples16 data)) \<le> 65535"
    using b by blast+
qed

lemma ToUint8_int: "ToUint8 (Fin (of_int k)) = word_of_int k"
  by simp

lemma normalize16_uniform:
  assumes "data \<noteq> []"
    and "Min (set (samples16 data)) = Max (set (samples16 data))"
  shows "normalizeToUint8Enhanced (Uint16Array data) 16 =
     replicate (length data) (word_of_int (fallback16 (Min (set (samples16 data)))))"
  unfolding normalizeToUint8Enhanced.simps range16_Min_Max [OF assms(1)] assms(2) [symmetric]
  by (simp add: js_sub_Fin js_gt_def fl64_zero shl1_16 fallback16_def)

lemma normalize32_uniform:
  assumes "finite_values data \<noteq> []"
    and "Min (set (finite_values data)) = Max (set (finite_values data))"
  shows "normalizeToUint8Enhanced (Float32Array data) bps =
     replicate (length data) (word_of_int (fallback32 (Min (set (finite_values data)))))"
  unfolding normalizeToUint8Enhanced.simps range32_Min_Max [OF assms(1)] assms(2) [symmetric]
  by (simp add: js_sub_Fin js_gt_def fl64_zero fallback32_def)

lemma normalize32_no_finite:
  assumes "finite_values data = []"
  shows "normalizeToUint8Enhanced (Float32Array data) bps = replicate (length data) 0"
  unfolding normalizeToUint8Enhanced.simps range32_none [OF assms]
  by simp

lemma fallback_example: "fallback16 500 = 2" "fallback32 (1 / 2) = 128"
  by code_simp+

text \<open>
  C7. When all finite samples are equal (\<open>max = min\<close>) the output is filled uniformly:
  16-bit integer data with \<open>round((min / ((1 << 16) - 1)) * 255)\<close>, float data with
  \<open>round(255)\<close> when \<open>|min| > 1\<close> and \<open>round(|min| * 255)\<close> otherwise; a float raster
  without any finite sample gives zeros only, of the input's length; an empty 16-bit
  raster gives the empty output. The only division on these paths has the divisor
  \<open>(1 << 16) - 1 = 65535\<close>, and every path returns a result.
\<close>

theorem uniform_normalization:
  "(data16 \<noteq> [] \<and> Min (set (samples16 data16)) = Max (set (samples16 data16)) \<longrightarrow>
      map uint (normalizeToUint8Enhanced (Uint16Array data16) 16) =
        replicate (length data16) (fallback16 (Min (set (samples16 data16)))))
   \<and> (finite_values data32 \<noteq> []
        \<and> Min (set (finite_values data32)) = Max (set (finite_values data32)) \<longrightarrow>
      map uint (normalizeToUint8Enhanced (Float32Array data32) bps) =
        replicate (length data32) (fallback32 (Min (set (finite_values data32)))))
   \<and> (finite_values data32 = [] \<longrightarrow>
      normalizeToUint8Enhanced (Float32Array data32) bps = replicate (length data32) 0)
   \<and> normalizeToUint8Enhanced (Uint16Array []) bps = []
   \<and> shl1 16 - 1 = 65535"
proof (intro conjI impI)
  assume a: "data16 \<noteq> [] \<and> Min (set (samples16 data16)) = Max (set (samples16 data16))"
  show "map uint (normalizeToUint8Enhanced (Uint16Array data16) 16) =
        replicate (length data16) (fallback16 (Min (set (samples16 data16))))"
    unfolding normalize16_uniform [OF conjunct1 [OF a] conjunct2 [OF a]]
    using samples16_range [OF conjunct1 [OF a]]
    by (simp add: uint_word8_of_int fallback16_range)
next
  assume a: "finite_values data32 \<noteq> []
        \<and> Min (set (finite_values data32)) = Max (set (finite_values data32))"
  show "map uint (normalizeToUint8Enhanced (Float32Array data32) bps) =
        replicate (length data32) (fallback32 (Min (set (finite_values data32))))"
    unfolding normalize32_uniform [OF conjunct1 [OF a] conjunct2 [OF a]]
    by (simp add: uint_word8_of_int fallback32_range)
next
  assume "finite_values data32 = []"
  then show "normalizeToUint8Enhanced (Float32Array data32) bps = replicate (length data32) 0"
    by (rule normalize32_no_finite)
next
  show "normalizeToUint8Enhanced (Uint16Array []) bps = []"
    by (simp add: read16_def js_sub_def js_gt_def)
next
  show "shl1 16 - 1 = 65535" by (simp add: shl1_16)
qed

theorem uniform_normalization_witness:
  "map uint (normalizeToUint8Enhanced (Uint16Array [500, 500, 500]) 16) = [2, 2, 2]
   \<and> map uint (normalizeToUint8Enhanced (Float32Array [Fin (1 / 2), NaN]) 32) = [128, 128]
   \<and> normalizeToUint8Enhanced (Float32Array [NaN, PInf, NaN]) 32 = [0, 0, 0]"
proof -
  have s: "samples16 [500, 500, 500] = [500, 500, 500]"
    by (simp add: samples16_def)
  show ?thesis
    using uniform_normalization [of "[500, 500, 500]" "[Fin (1 / 2), NaN]" 32]
      uniform_normalization [of "[]" "[NaN, PInf, NaN]" 32]
    by (simp add: s fallback_example)
qed

subsection \<open>The display bitmap\<close>

lemma length_normalizeToUint8Enhanced:
  "length (normalizeToUint8Enhanced d b) = ta_length d"
  by (cases d) (simp_all add: Let_def split: prod.splits)

lemma length_normalizeToUint8:
  "length (normalizeToUint8 d b) = ta_length d"
  by (cases d) (simp_all add: Let_def)

lemma gray_step_length: "length (gray_step nd pd i) = length pd"
  by (simp add: gray_step_def Let_def)

lemma gray_step_alpha:
  "4 * k + 3 < length pd \<Longrightarrow>
   gray_step nd pd i ! (4 * k + 3) = (if k = i then 255 else pd ! (4 * k + 3))"
  by (auto simp add: gray_step_def Let_def nth_list_update)

lemma gray_fold_length: "length (foldl (gray_step nd) pd [0 ..< m]) = length pd"
  by (induction m) (simp_all add: gray_step_length)

lemma gray_fold_alpha:
  "k < m \<Longrightarrow> 4 * k + 3 < length pd \<Longrightarrow> foldl (gray_step nd) pd [0 ..< m] ! (4 * k + 3) = 255"
proof (induction m)
  case 0
  then show ?case by simp
next
  case (Suc m)
  then show ?case
    by (cases "k = m") (simp_all add: gray_step_alpha gray_fold_length)
qed

lemma rgb_step_length: "length (rgb_step nd pd i) = length pd"
  by (simp add: rgb_step_def Let_def)

lemma rgb_step_alpha:
  "4 * k + 3 < length pd \<Longrightarrow>
   rgb_step nd pd i ! (4 * k + 3) = (if k = i then 255 else pd ! (4 * k + 3))"
  by (auto simp add: rgb_step_def Let_def nth_list_update)

lemma rgb_fold_length: "length (foldl (rgb_step nd) pd [0 ..< m]) = length pd"
  by (induction m) (simp_all add: rgb_step_length)

lemma rgb_fold_alpha:
  "k < m \<Longrightarrow> 4 * k + 3 < length pd \<Longrightarrow> foldl (rgb_step nd) pd [0 ..< m] ! (4 * k + 3) = 255"
proof (induction m)
  case 0
  then show ?case by simp
next
  case (Suc m)
  then show ?case
    by (cases "k = m") (simp_all add: rgb_step_alpha rgb_fold_length)
qed

lemma gray_to_rgba_length: "length (gray_to_rgba nd pd) = length pd"
  by (simp add: gray_to_rgba_def gray_fold_length)

lemma rgb_to_rgba_length: "length (rgb_to_rgba nd pd) = length pd"
  by (simp add: rgb_to_rgba_def rgb_fold_length)

lemma gray_to_rgba_alpha:
  "k < length nd \<Longrightarrow> 4 * k + 3 < length pd \<Longrightarrow> gray_to_rgba nd pd ! (4 * k + 3) = 255"
  by (simp add: gray_to_rgba_def gray_fold_alpha)

lemma rgb_to_rgba_alpha:
  "3 * k < length nd \<Longrightarrow> 4 * k + 3 < length pd \<Longrightarrow> rgb_to_rgba nd pd ! (4 * k + 3) = 255"
proof -
  assume a: "3 * k < length nd" "4 * k + 3 < length pd"
  have "k < (length nd + 2) div 3" using a(1) by linarith
  then show ?thesis using a(2) by (simp add: rgb_to_rgba_def rgb_fold_alpha)
qed

lemma new_ImageData_Inr:
  "new_ImageData pd w h = Inr r \<longleftrightarrow>
     0 < w \<and> 0 < h \<and> length pd = 4 * w * h
     \<and> r = \<lparr>image_data = pd, image_width = w, image_height = h\<rparr>"
  by (auto simp add: new_ImageData_def)

lemma finish_image_Inr:
  "finish_image evs pd w h = (events, Inr r) \<Longrightarrow>
     0 < w \<and> 0 < h \<and> r = \<lparr>image_data = pd, image_width = w, image_height = h\<rparr>"
  by (auto simp add: finish_image_def new_ImageData_def split: if_splits)

text \<open>
  C5. Whenever the conversion of an image succeeds, for any number of samples per pixel
  and any bit depth, and the library returned \<open>width * height\<close> values per requested
  sample, the pixel buffer of the bitmap has exactly \<open>width * height * 4\<close> bytes, every
  byte lies in \<open>[0, 255]\<close>, and the alpha byte of every pixel is 255.
\<close>

theorem process_image_bitmap:
  assumes ok: "process_image img = (events, Inr bitmap)"
    and contract: "\<And>samples d. readRasters img samples = Inr d \<Longrightarrow>
                ta_length d = getWidth img * getHeight img * length samples"
  shows "length (image_data bitmap) = getWidth img * getHeight img * 4
     \<and> image_width bitmap = getWidth img \<and> image_height bitmap = getHeight img
     \<and> (\<forall>b \<in> set (image_data bitmap). 0 \<le> uint b \<and> uint b \<le> 255)
     \<and> (\<forall>k < getWidth img * getHeight img. image_data bitmap ! (4 * k + 3) = 255)"
proof -
  let ?w = "getWidth img" and ?h = "getHeight img"
  let ?bps = "bitsPerSampleValue (getBitsPerSample img)"
  have bytes: "0 \<le> uint b \<and> uint b \<le> 255" for b :: "8 word"
    using uint_lt2p [of b] by simp
  consider (one) "getSamplesPerPixel img = 1" | (many) "3 \<le> getSamplesPerPixel img"
    | (other) "getSamplesPerPixel img \<noteq> 1" "\<not> 3 \<le> getSamplesPerPixel img"
    by blast
  then show ?thesis
  proof cases
    case one
    then obtain d where d: "readRasters img [0] = Inr d"
      using ok by (auto simp add: process_image_def Let_def split: sum.splits)
    let ?nd = "normalizeToUint8Enhanced d ?bps"
    let ?pd = "gray_to_rgba ?nd (replicate (?w * ?h * 4) 0)"
    have "bitmap = \<lparr>image_data = ?pd, image_width = ?w, image_height = ?h\<rparr>"
      using ok one d by (auto simp add: process_image_def Let_def dest: finish_image_Inr)
    moreover have "length ?nd = ?w * ?h"
      using contract [OF d] by (simp add: length_normalizeToUint8Enhanced)
    ultimately show ?thesis
      using bytes by (simp add: gray_to_rgba_length gray_to_rgba_alpha)
  next
    case many
    then have ne: "getSamplesPerPixel img \<noteq> 1" by simp
    obtain d where d: "readRasters img [0, 1, 2] = Inr d"
      using ok many ne by (auto simp add: process_image_def Let_def split: sum.splits)
    let ?nd = "if 16 \<le> ?bps then normalizeToUint8Enhanced d ?bps else normalizeToUint8 d ?bps"
    let ?pd = "rgb_to_rgba ?nd (replicate (?w * ?h * 4) 0)"
    have "bitmap = \<lparr>image_data = ?pd, image_width = ?w, image_height = ?h\<rparr>"
      using ok many ne d by (auto simp add: process_image_def Let_def dest: finish_image_Inr)
    moreover have "length ?nd = ?w * ?h * 3"
      using contract [OF d] by (simp add: length_normalizeToUint8Enhanced length_normalizeToUint8)
    ultimately show ?thesis
      using bytes by (simp add: rgb_to_rgba_length rgb_to_rgba_alpha)
  next
    case other
    then show ?thesis
      using ok by (simp add: process_image_def Let_def)
  qed
qed

lemma gray_2x2:
  "process_image
     \<lparr>getWidth = 2, getHeight = 2, getSamplesPerPixel = 1, getBitsPerSample = Scalar 8,
      readRasters = (\<lambda>samples. if samples = [0] then Inr (Uint8Array [0, 128, 255, 64])
                                else Inl ''no such sample'')\<rparr> =
   ([(Fin 85, ''Processing grayscale image...'', None),
     (Fin 90, ''Converting to display format...'', None),
     (Fin 95, ''Creating final image...'', None),
     (Fin 100, ''Loading completed!'', None)],
    Inr \<lparr>image_data = [0, 0, 0, 255, 128, 128, 128, 255, 255, 255, 255, 255, 64, 64, 64, 255],
         image_width = 2, image_height = 2\<rparr>)"
  by code_simp

theorem process_image_bitmap_witness:
  "length [0, 0, 0, 255, 128, 128, 128, 255, 255, 255, 255, 255, 64, 64, 64, 255 :: 8 word]
     = 2 * 2 * 4
   \<and> [0, 0, 0, 255, 128, 128, 128, 255, 255, 255, 255, 255, 64, 64, 64, 255 :: 8 word]
       ! (4 * 2 + 3) = 255
   \<and> snd (process_image
       \<lparr>getWidth = 2, getHeight = 2, getSamplesPerPixel = 1, getBitsPerSample = Scalar 8,
        readRasters = (\<lambda>samples. if samples = [0] then Inr (Uint8Array [0, 128, 255, 64])
                                  else Inl ''no such sample'')\<rparr>) =
      Inr \<lparr>image_data = [0, 0, 0, 255, 128, 128, 128, 255, 255, 255, 255, 255, 64, 64, 64, 255],
           image_width = 2, image_height = 2\<rparr>"
proof -
  let ?img = "\<lparr>getWidth = 2, getHeight = 2, getSamplesPerPixel = 1, getBitsPerSample = Scalar 8,
        readRasters = (\<lambda>samples. if samples = [0] then Inr (Uint8Array [0, 128, 255, 64])
                                  else Inl ''no such sample'')\<rparr>"
  have c: "ta_length d = getWidth ?img * getHeight ?img * length samples"
    if "readRasters ?img samples = Inr d" for samples d
    using that by (auto split: if_splits)
  from process_image_bitmap [OF gray_2x2 c]
  have "length [0, 0, 0, 255, 128, 128, 128, 255, 255, 255, 255, 255, 64, 64, 64, 255 :: 8 word]
          = 2 * 2 * 4
      \<and> (\<forall>k<2 * 2. [0, 0, 0, 255, 128, 128, 128, 255, 255, 255, 255, 255, 64, 64, 64, 255 :: 8 word]
            ! (4 * k + 3) = 255)"
    by simp
  then show ?thesis
    using gray_2x2 by simp
qed

subsection \<open>Samples per pixel\<close>

lemma five_bands:
  "process_image
     \<lparr>getWidth = 1, getHeight = 1, getSamplesPerPixel = 5, getBitsPerSample = Scalar 8,
      readRasters = (\<lambda>samples. Inr (Uint8Array [10, 20, 30]))\<rparr> =
   ([(Fin 85, ''Processing multi-channel image...'', None),
     (Fin 90, ''Converting RGB to display format...'', None),
     (Fin 95, ''Creating final image...'', None),
     (Fin 100, ''Loading completed!'', None)],
    Inr \<lparr>image_data = [10, 20, 30, 255], image_width = 1, image_height = 1\<rparr>)"
  by code_simp

text \<open>
  C2, as stated, fails: an image that reports five samples per pixel is converted, from
  its first three channels, and no error is raised.
\<close>

theorem five_bands_accepted:
  "getSamplesPerPixel
     \<lparr>getWidth = 1, getHeight = 1, getSamplesPerPixel = 5, getBitsPerSample = Scalar 8,
      readRasters = (\<lambda>samples. Inr (Uint8Array [10, 20, 30]))\<rparr> \<notin> {1, 3, 4}
   \<and> snd (process_image
       \<lparr>getWidth = 1, getHeight = 1, getSamplesPerPixel = 5, getBitsPerSample = Scalar 8,
        readRasters = (\<lambda>samples. Inr (Uint8Array [10, 20, 30]))\<rparr>) =
      Inr \<lparr>image_data = [10, 20, 30, 255], image_width = 1, image_height = 1\<rparr>"
  using five_bands by (simp del: One_nat_def)

text \<open>
  C2, amended. The conversion fails with the message
  \<open>Unsupported number of samples per pixel: n\<close>, before any progress call of its own and
  without a bitmap, when the reported number of samples per pixel is neither 1 nor at
  least 3 (that is, 0 or 2). For 1 and for every number from 3 on (5 and more included)
  it produces a bitmap whenever the image has positive dimensions and the library returns
  the requested channels; from 3 on the result is the one for exactly three samples per
  pixel.
\<close>

theorem unsupported_samples:
  "(getSamplesPerPixel img \<noteq> 1 \<and> getSamplesPerPixel img < 3 \<longrightarrow>
      process_image img =
        ([], Inl (''Unsupported number of samples per pixel: ''
                   @ toString_radix 10 (getSamplesPerPixel img))))
   \<and> ((getSamplesPerPixel img = 1 \<or> 3 \<le> getSamplesPerPixel img)
        \<and> 0 < getWidth img \<and> 0 < getHeight img
        \<and> readRasters img (channels_read (getSamplesPerPixel img)) = Inr d \<longrightarrow>
      (\<exists>bitmap. snd (process_image img) = Inr bitmap))
   \<and> (3 \<le> getSamplesPerPixel img \<longrightarrow>
      snd (process_image img) = snd (process_image (img\<lparr>getSamplesPerPixel := 3\<rparr>)))"
proof (intro conjI impI)
  assume "getSamplesPerPixel img \<noteq> 1 \<and> getSamplesPerPixel img < 3"
  then show "process_image img =
        ([], Inl (''Unsupported number of samples per pixel: ''
                   @ toString_radix 10 (getSamplesPerPixel img)))"
    by (simp add: process_image_def Let_def)
next
  assume a: "(getSamplesPerPixel img = 1 \<or> 3 \<le> getSamplesPerPixel img)
        \<and> 0 < getWidth img \<and> 0 < getHeight img
        \<and> readRasters img (channels_read (getSamplesPerPixel img)) = Inr d"
  have fin: "\<exists>bitmap. snd (finish_image evs (f (replicate (getWidth img * getHeight img * 4) 0))
              (getWidth img) (getHeight img)) = Inr bitmap"
    if "\<And>pd. length (f pd) = length pd" for evs and f :: "8 word list \<Rightarrow> 8 word list"
    using a that by (simp add: finish_image_def new_ImageData_def mult.commute mult.left_commute)
  show "\<exists>bitmap. snd (process_image img) = Inr bitmap"
  proof (cases "getSamplesPerPixel img = 1")
    case True
    then show ?thesis
      using a fin [of "gray_to_rgba _"]
      by (simp add: process_image_def Let_def channels_read_def gray_to_rgba_length)
  next
    case False
    then show ?thesis
      using a fin [of "rgb_to_rgba _"]
      by (simp add: process_image_def Let_def channels_read_def rgb_to_rgba_length)
  qed
next
  assume "3 \<le> getSamplesPerPixel img"
  then show "snd (process_image img) = snd (process_image (img\<lparr>getSamplesPerPixel := 3\<rparr>))"
    by (simp add: process_image_def Let_def finish_image_def split: sum.splits)
qed

theorem unsupported_samples_witness:
  "process_image
     \<lparr>getWidth = 1, getHeight = 1, getSamplesPerPixel = 2, getBitsPerSample = Scalar 8,
      readRasters = (\<lambda>samples. Inr (Uint8Array [10, 20, 30]))\<rparr> =
     ([], Inl ''Unsupported number of samples per pixel: 2'')
   \<and> (\<exists>bitmap. snd (process_image
       \<lparr>getWidth = 1, getHeight = 1, getSamplesPerPixel = 5, getBitsPerSample = Scalar 8,
        readRasters = (\<lambda>samples. Inr (Uint8Array [10, 20, 30]))\<rparr>) = Inr bitmap)"
proof -
  let ?img2 = "\<lparr>getWidth = 1, getHeight = 1, getSamplesPerPixel = 2,
      getBitsPerSample = Scalar 8,
      readRasters = (\<lambda>samples. Inr (Uint8Array [10, 20, 30]))\<rparr>"
  let ?img5 = "\<lparr>getWidth = 1, getHeight = 1, getSamplesPerPixel = 5,
      getBitsPerSample = Scalar 8,
      readRasters = (\<lambda>samples. Inr (Uint8Array [10, 20, 30]))\<rparr>"
  have "process_image ?img2 =
      ([], Inl (''Unsupported number of samples per pixel: ''
                 @ toString_radix 10 (getSamplesPerPixel ?img2)))"
    by (rule mp [OF conjunct1 [OF unsupported_samples [of ?img2 "Uint8Array [10, 20, 30]"]]])
       simp
  moreover have "\<exists>bitmap. snd (process_image ?img5) = Inr bitmap"
    by (rule mp [OF conjunct1 [OF conjunct2
          [OF unsupported_samples [of ?img5 "Uint8Array [10, 20, 30]"]]]])
       (simp add: channels_read_def)
  ultimately show ?thesis
    by (simp add: toString_radix.simps digit_char_def del: One_nat_def)
qed

subsection \<open>1-bit data\<close>

text \<open>
  C3. The enhanced normalizer binarizes 1-bit samples (\<open>[0, 5, 0, 255]\<close> gives
  \<open>[0, 255, 0, 255]\<close>), and the grayscale branch uses it. The multi-band branch sends
  every bit depth below 16 to the plain normalizer, which copies the samples: the 1-bit
  RGB pixel \<open>[0, 1, 1]\<close> is displayed as \<open>[0, 1, 1, 255]\<close>, not as
  \<open>[0, 255, 255, 255]\<close>.
\<close>

theorem rgb_1bit_not_binarized:
  "snd (process_image
     \<lparr>getWidth = 1, getHeight = 1, getSamplesPerPixel = 3, getBitsPerSample = Scalar 1,
      readRasters = (\<lambda>samples. Inr (Uint8Array [0, 1, 1]))\<rparr>) =
     Inr \<lparr>image_data = [0, 1, 1, 255], image_width = 1, image_height = 1\<rparr>
   \<and> snd (process_image
     \<lparr>getWidth = 3, getHeight = 1, getSamplesPerPixel = 1, getBitsPerSample = Scalar 1,
      readRasters = (\<lambda>samples. Inr (Uint8Array [0, 1, 1]))\<rparr>) =
     Inr \<lparr>image_data = [0, 0, 0, 255, 255, 255, 255, 255, 255, 255, 255, 255],
          image_width = 3, image_height = 1\<rparr>
   \<and> normalizeToUint8Enhanced (Uint8Array [0, 5, 0, 255]) 1 = [0, 255, 0, 255]
   \<and> normalizeToUint8 (Uint8Array [0, 5, 0, 255]) 1 = [0, 5, 0, 255]"
  by code_simp

subsection \<open>Download progress without a declared size\<close>

lemma unknown_size_eta:
  assumes "0 \<le> now - start" "now - start < 2 ^ 42"
  shows "unknown_size_progress start now =
     (Fin 20, ''Downloading data...'',
      Some (Fin (of_int (max 3 (15 - (now - start) div 1000)))))"
proof -
  define e where "e = now - start"
  define k where "k = e div 1000"
  have e: "0 \<le> e" "e < 2 ^ 42" using assms by (simp_all add: e_def)
  have k: "0 \<le> k" "k \<le> e"
    using e(1) by (simp_all add: k_def pos_imp_zdiv_nonneg_iff zdiv_mono2 [of e 1 1000, simplified])
  have 1: "fl64 (of_int now - of_int start) = of_int e"
    using fl64_of_int [of e] e by (simp add: e_def)
  have 2: "\<lfloor>fl64 (of_int e / 1000)\<rfloor> = k"
    using floor_fl64_div_1000 [OF e] by (simp add: k_def)
  have 3: "fl64 (15 - of_int k) = of_int (15 - k)"
    using fl64_of_int [of "15 - k"] k e by simp
  show ?thesis
    unfolding unknown_size_progress_def Let_def js_sub_Fin 1
    by (simp add: 2 js_sub_Fin 3 Math_max_Fin e_def [symmetric] k_def [symmetric])
qed

text \<open>
  C8, amended. When no total size is declared (or the declared size is 0), every progress
  call of the download stage reports the percent 20; only the estimated time follows the
  elapsed time: it is \<open>max(3, 15 - floor(elapsed / 1000))\<close> seconds.
\<close>

theorem unknown_size_download:
  "(\<not> truthy_size totalSize \<longrightarrow>
      map fst (download totalSize start downloaded chunks) = replicate (length chunks) (Fin 20))
   \<and> (\<not> truthy_size totalSize
        \<and> (\<forall>now \<in> snd ` set chunks. 0 \<le> now - start \<and> now - start < 2 ^ 42) \<longrightarrow>
      download totalSize start downloaded chunks =
        map (\<lambda>(chunk, now).
               (Fin 20, ''Downloading data...'',
                Some (Fin (of_int (max 3 (15 - (now - start) div 1000)))))) chunks)"
proof (intro conjI impI)
  assume a: "\<not> truthy_size totalSize"
  then have t: "totalSize = None \<or> totalSize = Some 0"
    by (cases totalSize) auto
  show "map fst (download totalSize start downloaded chunks) = replicate (length chunks) (Fin 20)"
    using t
    by (induction chunks arbitrary: downloaded)
       (auto simp add: unknown_size_progress_def Let_def)
next
  assume a: "\<not> truthy_size totalSize
        \<and> (\<forall>now \<in> snd ` set chunks. 0 \<le> now - start \<and> now - start < 2 ^ 42)"
  then have t: "totalSize = None \<or> totalSize = Some 0"
    by (cases totalSize) auto
  from a have "\<forall>now \<in> snd ` set chunks. 0 \<le> now - start \<and> now - start < 2 ^ 42" by simp
  then show "download totalSize start downloaded chunks =
        map (\<lambda>(chunk, now).
               (Fin 20, ''Downloading data...'',
                Some (Fin (of_int (max 3 (15 - (now - start) div 1000)))))) chunks"
    using t
    by (induction chunks arbitrary: downloaded) (auto simp add: unknown_size_eta)
qed

text \<open>
  C8, as stated, fails: with no declared size, two chunks arriving two seconds apart are
  both reported at 20 percent.
\<close>

theorem unknown_size_percent_fixed:
  "map fst (download None 0 0 [([73, 73, 42, 0], 1000), ([8, 0, 0, 0], 3000)])
     = [Fin 20, Fin 20]"
  by (simp add: unknown_size_progress_def Let_def)

theorem unknown_size_download_witness:
  "download None 0 0 [([73, 73, 42, 0], 1000), ([8, 0, 0, 0], 3000), ([], 14000)] =
     [(Fin 20, ''Downloading data...'', Some (Fin 14)),
      (Fin 20, ''Downloading data...'', Some (Fin 12)),
      (Fin 20, ''Downloading data...'', Some (Fin 3))]"
  using unknown_size_download
    [of None 0 0 "[([73, 73, 42, 0], 1000), ([8, 0, 0, 0], 3000), ([], 14000)]"]
  by simp

subsection \<open>The order of the reported percents\<close>

lemma pw_Nil [simp]: "percents_within lo hi []"
  by (simp add: percents_within_def)

lemma pw_Cons [simp]:
  "percents_within lo hi ((Fin p, s, e) # events) \<longleftrightarrow>
     lo \<le> p \<and> p \<le> hi \<and> percents_within p hi events"
proof
  assume "percents_within lo hi ((Fin p, s, e) # events)"
  then obtain ps where ps: "map fst ((Fin p, s, e) # events) = map Fin ps" "sorted ps"
      "\<forall>q \<in> set ps. lo \<le> q \<and> q \<le> hi"
    unfolding percents_within_def by blast
  obtain q qs where c: "ps = q # qs" using ps(1) by (cases ps) auto
  with ps(1) have q: "q = p" "map fst events = map Fin qs" by auto
  have "sorted qs" "\<forall>x \<in> set qs. p \<le> x \<and> x \<le> hi" "lo \<le> p" "p \<le> hi"
    using ps(2,3) c q(1) by auto
  then show "lo \<le> p \<and> p \<le> hi \<and> percents_within p hi events"
    unfolding percents_within_def using q(2) by blast
next
  assume a: "lo \<le> p \<and> p \<le> hi \<and> percents_within p hi events"
  then obtain qs where qs: "map fst events = map Fin qs" "sorted qs"
      "\<forall>q \<in> set qs. p \<le> q \<and> q \<le> hi"
    unfolding percents_within_def by blast
  have "map fst ((Fin p, s, e) # events) = map Fin (p # qs)" using qs(1) by simp
  moreover have "sorted (p # qs)" using qs(2,3) by simp
  moreover have "\<forall>q \<in> set (p # qs). lo \<le> q \<and> q \<le> hi" using a qs(3) by auto
  ultimately show "percents_within lo hi ((Fin p, s, e) # events)"
    unfolding percents_within_def by blast
qed

lemma pw_append:
  assumes "percents_within lo mid xs" "percents_within mid hi ys" "lo \<le> mid" "mid \<le> hi"
  shows "percents_within lo hi (xs @ ys)"
proof -
  obtain ps where ps: "map fst xs = map Fin ps" "sorted ps" "\<forall>q \<in> set ps. lo \<le> q \<and> q \<le> mid"
    using assms(1) unfolding percents_within_def by blast
  obtain qs where qs: "map fst ys = map Fin qs" "sorted qs" "\<forall>q \<in> set qs. mid \<le> q \<and> q \<le> hi"
    using assms(2) unfolding percents_within_def by blast
  have "map fst (xs @ ys) = map Fin (ps @ qs)" using ps(1) qs(1) by simp
  moreover have "\<forall>x \<in> set ps. \<forall>y \<in> set qs. x \<le> y"
    using ps(3) qs(3) by (meson order_trans)
  then have "sorted (ps @ qs)" using ps(2) qs(2) by (simp add: sorted_append)
  moreover have "\<forall>q \<in> set (ps @ qs). lo \<le> q \<and> q \<le> hi"
    using ps(3) qs(3) assms(3,4) by (auto intro: order_trans)
  ultimately show ?thesis unfolding percents_within_def by blast
qed

lemma pw_weaken:
  "percents_within lo hi xs \<Longrightarrow> lo' \<le> lo \<Longrightarrow> hi \<le> hi' \<Longrightarrow> percents_within lo' hi' xs"
  unfolding percents_within_def by fastforce

lemma js_add_Fin: "js_add (Fin a) (Fin b) = Fin (fl64 (a + b))"
  by simp

lemma known_size_percent:
  "n \<noteq> 0 \<Longrightarrow> fst (known_size_progress n start d now) = Fin (known_percent n d)"
  by (simp add: known_size_progress_def known_percent_def Let_def Math_min_Fin)

lemma known_percent_mono:
  assumes "d \<le> d'"
  shows "known_percent n d \<le> known_percent n d'"
proof -
  have "(of_nat d :: rat) / of_nat n \<le> of_nat d' / of_nat n"
    using assms by (simp add: divide_right_mono)
  then have "fl64 (of_nat d / of_nat n) * 50 \<le> fl64 (of_nat d' / of_nat n) * 50"
    by (simp add: fl64_mono)
  then have "min (fl64 (fl64 (of_nat d / of_nat n) * 50)) 50
      \<le> min (fl64 (fl64 (of_nat d' / of_nat n) * 50)) 50"
    by (intro min.mono fl64_mono) simp_all
  then show ?thesis
    unfolding known_percent_def by (intro fl64_mono) simp
qed

lemma known_percent_range: "10 \<le> known_percent n d" "known_percent n d \<le> 60"
proof -
  let ?m = "min (fl64 (fl64 (of_nat d / of_nat n) * 50)) 50"
  have "0 \<le> fl64 (fl64 (of_nat d / of_nat n) * 50)"
    by (intro fl64_nonneg mult_nonneg_nonneg) simp_all
  then have m: "0 \<le> ?m" "?m \<le> 50" by simp_all
  have "fl64 10 \<le> fl64 (10 + ?m)" using m(1) by (intro fl64_mono) simp
  moreover have "fl64 (10 + ?m) \<le> fl64 60" using m(2) by (intro fl64_mono) simp
  moreover have "fl64 10 = 10" "fl64 60 = 60"
    using fl64_of_int [of 10] fl64_of_int [of 60] by simp_all
  ultimately show "10 \<le> known_percent n d" "known_percent n d \<le> 60"
    by (simp_all add: known_percent_def)
qed

lemma download_known:
  "n \<noteq> 0 \<Longrightarrow> percents_within (known_percent n d) 60 (download (Some n) start d chunks)"
proof (induction chunks arbitrary: d)
  case Nil
  then show ?case by simp
next
  case (Cons c chunks)
  obtain chunk now where c: "c = (chunk, now)" by (cases c)
  obtain s e where k: "known_size_progress n start (d + length chunk) now
      = (Fin (known_percent n (d + length chunk)), s, e)"
    using known_size_percent [OF Cons.prems, of start "d + length chunk" now]
    by (cases "known_size_progress n start (d + length chunk) now") auto
  show ?case
    using Cons.IH [OF Cons.prems, of "d + length chunk"] Cons.prems
      known_percent_mono [of d "d + length chunk" n] known_percent_range [of n "d + length chunk"]
    by (simp add: c k)
qed

lemma download_unknown:
  "\<not> truthy_size totalSize \<Longrightarrow>
   map fst (download totalSize start d chunks) = replicate (length chunks) (Fin 20)"
proof -
  assume "\<not> truthy_size totalSize"
  then have t: "totalSize = None \<or> totalSize = Some 0"
    by (cases totalSize) auto
  then show ?thesis
    by (induction chunks arbitrary: d) (auto simp add: unknown_size_progress_def Let_def)
qed

lemma download_within: "percents_within 10 60 (download totalSize start d chunks)"
proof (cases "truthy_size totalSize")
  case True
  then obtain n where n: "totalSize = Some n" "n \<noteq> 0" by (cases totalSize) auto
  show ?thesis
    unfolding n(1)
    using download_known [OF n(2), of d start chunks] known_percent_range(1) [of n d]
    by (rule pw_weaken) simp
next
  case False
  have "map fst (download totalSize start d chunks) = map Fin (replicate (length chunks) 20)"
    using download_unknown [OF False] by simp
  then show ?thesis
    unfolding percents_within_def
    by (intro exI [of _ "replicate (length chunks) 20"]) (simp add: sorted_replicate)
qed

lemma initial_estimate_percent: "\<exists>s e. initial_estimate totalSize = (Fin 5, s, e)"
  by (simp add: initial_estimate_def Let_def split: option.splits)

lemma process_image_within: "percents_within 85 100 (fst (process_image img))"
  by (simp add: process_image_def finish_image_def Let_def split: sum.splits)

lemma parse_tiff_within: "percents_within 75 100 (fst (parse_tiff ev buf))"
proof -
  have "percents_within 80 100 (fst (process_image img))" for img
    using process_image_within [of img] by (rule pw_weaken) simp_all
  then show ?thesis
    by (auto simp add: parse_tiff_def split: sum.splits prod.splits)
       (metis fst_conv)
qed


lemma tail_within:
  "percents_within 60 100
     ((Fin 60, s, e) # (if c then [] else (Fin 70, s', e') # fst (parse_tiff ev buf)))"
  using parse_tiff_within [of ev buf]
  by (auto elim: pw_weaken)

text \<open>
  The percents handed to the progress sink by one call of \<open>loadAndProcessTiff\<close> are in
  non-decreasing order and lie between 5 and 100, on every path, failing ones included.
\<close>

lemma sink_monotone: "percents_within 5 100 (fst (loadAndProcessTiff ev url))"
proof -
  have d: "percents_within 10 100 (download ts st 0 cs @ tl)"
    if "percents_within 60 100 tl" for ts st cs tl
    using download_within [of ts st 0 cs] that by (rule pw_append) simp_all
  have p: "percents_within 70 100 (fst (parse_tiff ev buf))" for buf
    using parse_tiff_within [of ev buf] by (rule pw_weaken) simp_all
  show ?thesis
  proof (cases "fetch ev url")
    case (Inl err)
    then show ?thesis by (simp add: loadAndProcessTiff_def)
  next
    case (Inr response)
    obtain s e where ie: "initial_estimate (content_length response) = (Fin 5, s, e)"
      using initial_estimate_percent by blast
    show ?thesis
    proof (cases "response_body response")
      case None
      then show ?thesis using Inr ie by (simp add: loadAndProcessTiff_def Let_def)
    next
      case (Some reader)
      let ?buf = "concat (map fst (stream_chunks reader))"
      have 1: "percents_within 10 100
          (download (content_length response) (startTime ev) 0 (stream_chunks reader))"
        using d [of "[]"] by simp
      have 2: "percents_within 10 100
          (download (content_length response) (startTime ev) 0 (stream_chunks reader)
            @ [(Fin 60, ''Validating TIFF file...'', None)])"
        by (rule d) simp
      have 3: "percents_within 10 100
          (download (content_length response) (startTime ev) 0 (stream_chunks reader)
            @ (Fin 60, ''Validating TIFF file...'', None)
            # (Fin 70, ''Processing TIFF image...'', None) # fst (parse_tiff ev ?buf))"
        by (rule d) (simp add: p)
      show ?thesis
        using Inr ie Some 1 2 3
        by (auto simp add: loadAndProcessTiff_def Let_def split: option.splits prod.splits)
    qed
  qed
qed

lemma progress_values_append:
  "progress_values (xs @ ys) = progress_values xs @ progress_values ys"
  by (induction xs rule: progress_values.induct) simp_all

lemma progress_values_callback: "progress_values (progress_callback ev) = [fst ev]"
  by (cases ev) (simp split: option.splits)

lemma progress_values_callbacks:
  "progress_values (concat (map progress_callback events)) = map fst events"
  by (induction events) (simp_all add: progress_values_append progress_values_callback)

lemma progress_values_catch: "progress_values (catch_actions v err) = []"
  by (simp add: catch_actions_def)

lemma effect_progress_success:
  assumes "openSeadragon v = None"
    and "loadAndProcessTiff (load_env v) (tiffPath v) = (events, Inr imageData)"
  shows "progress_values (effect v) =
     [Fin 0, Fin 0, Fin 2] @ map fst events @ [Fin 98]
     @ (if canvas_context v then [Fin 100] else [])"
  using assms
  by (simp add: effect_def initViewer_def Let_def progress_values_append
      progress_values_callbacks progress_values_catch)

lemma finish_image_last:
  "finish_image evs pd w h = (events, Inr r) \<Longrightarrow>
   \<exists>xs. events = xs @ [(Fin 100, ''Loading completed!'', None)]"
  by (auto simp add: finish_image_def split: sum.splits)

lemma process_image_last:
  "process_image img = (events, Inr r) \<Longrightarrow>
   \<exists>xs. events = xs @ [(Fin 100, ''Loading completed!'', None)]"
  by (auto simp add: process_image_def Let_def split: if_splits sum.splits
      dest: finish_image_last)

lemma parse_tiff_last:
  "parse_tiff ev buf = (events, Inr r) \<Longrightarrow>
   \<exists>xs. events = xs @ [(Fin 100, ''Loading completed!'', None)]"
  by (auto simp add: parse_tiff_def split: sum.splits prod.splits
      dest!: process_image_last)

lemma loadAndProcessTiff_last:
  "loadAndProcessTiff ev url = (events, Inr r) \<Longrightarrow>
   \<exists>xs. events = xs @ [(Fin 100, ''Loading completed!'', None)]"
  by (auto simp add: loadAndProcessTiff_def Let_def
      split: sum.splits prod.splits option.splits if_splits
      dest!: parse_tiff_last)

text \<open>
  C4. The percents handed to \<open>setLoadingProgress\<close> in one run of the effect are 0, 0, 2,
  then the percents of the progress sink, then 98 and 100. A load that succeeds ends the
  sink's percents with 100 (\<open>Loading completed!\<close>), so the progress state goes from 100
  back to 98 (\<open>Preparing viewer...\<close>): the sequence is not monotone.
\<close>

theorem progress_state_decreases:
  assumes "openSeadragon v = None"
    and "loadAndProcessTiff (load_env v) (tiffPath v) = (events, Inr imageData)"
  shows "\<exists>xs ys. progress_values (effect v) = xs @ [Fin 100, Fin 98] @ ys"
proof -
  obtain es where "events = es @ [(Fin 100, ''Loading completed!'', None)]"
    using loadAndProcessTiff_last [OF assms(2)] by blast
  then have "progress_values (effect v) =
      ([Fin 0, Fin 0, Fin 2] @ map fst es) @ [Fin 100, Fin 98]
      @ (if canvas_context v then [Fin 100] else [])"
    using effect_progress_success [OF assms] by simp
  then show ?thesis by blast
qed


lemma sample_load:
  "loadAndProcessTiff sample_env ''/file.tif'' =
     ([(Fin 5, ''Downloading TIFF file...'', None),
       (Fin 5, ''Downloading TIFF file...'', Some (Fin 15)),
       (Fin 10, ''Downloading data...'', None),
       (Fin 20, ''Downloading data...'', Some (Fin 15)),
       (Fin 60, ''Validating TIFF file...'', None),
       (Fin 70, ''Processing TIFF image...'', None),
       (Fin 75, ''Reading image metadata...'', None),
       (Fin 80, ''Extracting pixel data...'', None),
       (Fin 85, ''Processing grayscale image...'', None),
       (Fin 90, ''Converting to display format...'', None),
       (Fin 95, ''Creating final image...'', None),
       (Fin 100, ''Loading completed!'', None)],
      Inr \<lparr>image_data = [128, 128, 128, 255], image_width = 1, image_height = 1\<rparr>)"
  by code_simp

theorem progress_state_decreases_witness:
  "(\<exists>xs ys. progress_values (effect sample_viewer) = xs @ [Fin 100, Fin 98] @ ys)
   \<and> progress_values (effect sample_viewer) =
       [Fin 0, Fin 0, Fin 2, Fin 5, Fin 5, Fin 10, Fin 20, Fin 60, Fin 70, Fin 75, Fin 80,
        Fin 85, Fin 90, Fin 95, Fin 100, Fin 98, Fin 100]"
proof -
  have o: "openSeadragon sample_viewer = None"
    by (simp add: sample_viewer_def)
  have l: "loadAndProcessTiff (load_env sample_viewer) (tiffPath sample_viewer) =
     ([(Fin 5, ''Downloading TIFF file...'', None),
       (Fin 5, ''Downloading TIFF file...'', Some (Fin 15)),
       (Fin 10, ''Downloading data...'', None),
       (Fin 20, ''Downloading data...'', Some (Fin 15)),
       (Fin 60, ''Validating TIFF file...'', None),
       (Fin 70, ''Processing TIFF image...'', None),
       (Fin 75, ''Reading image metadata...'', None),
       (Fin 80, ''Extracting pixel data...'', None),
       (Fin 85, ''Processing grayscale image...'', None),
       (Fin 90, ''Converting to display format...'', None),
       (Fin 95, ''Creating final image...'', None),
       (Fin 100, ''Loading completed!'', None)],
      Inr \<lparr>image_data = [128, 128, 128, 255], image_width = 1, image_height = 1\<rparr>)"
    using sample_load by (simp add: sample_viewer_def)
  have "progress_values (effect sample_viewer) =
       [Fin 0, Fin 0, Fin 2, Fin 5, Fin 5, Fin 10, Fin 20, Fin 60, Fin 70, Fin 75, Fin 80,
        Fin 85, Fin 90, Fin 95, Fin 100, Fin 98, Fin 100]"
    using effect_progress_success [OF o l] by (simp add: sample_viewer_def)
  with progress_state_decreases [OF o l] show ?thesis by simp
qed

subsection \<open>A superseded run of the effect\<close>

lemma run_append: "run s (xs @ ys) = run (run s xs) ys"
  by (simp add: run_def)

lemma apply_action_viewer:
  "\<not> widget_action a \<Longrightarrow> viewerInstance (apply_action s a) = viewerInstance s"
  by (cases a) simp_all

lemma run_viewer:
  "\<forall>a \<in> set xs. \<not> widget_action a \<Longrightarrow> viewerInstance (run s xs) = viewerInstance s"
  unfolding run_def
  by (induction xs arbitrary: s) (simp_all add: apply_action_viewer)

lemma callback_no_widget: "\<forall>a \<in> set (progress_callback ev). \<not> widget_action a"
  by (cases ev) (simp split: option.splits)

lemma callbacks_no_widget:
  "\<forall>a \<in> set (concat (map progress_callback events)). \<not> widget_action a"
  using callback_no_widget by auto

lemma catch_isMounted: "catch_actions (v\<lparr>isMounted := b\<rparr>) err = catch_actions v err"
  by (simp add: catch_actions_def)

lemma filter_callbacks:
  "filter (\<lambda>a. \<not> widget_action a) (concat (map progress_callback events)) =
     concat (map progress_callback events)"
  using callbacks_no_widget [of events] by (simp add: filter_id_conv)

text \<open>
  The flag \<open>isMounted\<close> guards the creation of the widget and the registration of
  \<open>onLoad\<close>, and nothing else: a run whose flag was cleared makes every other call of
  the run whose flag is set.
\<close>

lemma stale_run_skips_widget_only:
  "initViewer (v\<lparr>isMounted := False\<rparr>) =
     filter (\<lambda>a. \<not> widget_action a) (initViewer (v\<lparr>isMounted := True\<rparr>))"
  by (simp add: initViewer_def Let_def catch_isMounted filter_callbacks catch_actions_def
      split: option.splits prod.splits sum.splits)

lemma first_segment_eq:
  "first_segment v =
     [SetLoadingProgress (Fin 0), SetEstimatedTime (Fin 15), SetLoadingStage ''Initializing...'',
      SetIsLoading True, SetError None, SetLoadingProgress (Fin 0),
      SetEstimatedTime (Fin 15), SetLoadingStage ''Initializing...'',
      SetLoadingStage ''Loading OpenSeadragon...'', SetLoadingProgress (Fin 2),
      SetEstimatedTime (Fin 12)]"
  by (simp add: first_segment_def effect_def initViewer_def Let_def
      split: option.splits prod.splits sum.splits)

lemma later_segments_stale:
  assumes "openSeadragon v = None"
    and "loadAndProcessTiff (load_env v) (tiffPath v) = (events, Inr imageData)"
    and "canvas_context v"
    and "\<not> isMounted v"
  shows "later_segments v =
     (concat (map progress_callback events)
      @ [SetLoadingStage ''Preparing viewer...'', SetLoadingProgress (Fin 98)])
     @ [SetLoadingStage ''Image loaded successfully!'', SetLoadingProgress (Fin 100),
        Timeout_SetIsLoading False]"
  using assms
  by (simp add: later_segments_def effect_def initViewer_def Let_def)

lemma stale_completion:
  assumes "openSeadragon v = None"
    and "loadAndProcessTiff (load_env v) (tiffPath v) = (events, Inr imageData)"
    and "canvas_context v"
    and "\<not> isMounted v"
  shows "loadingProgress (run s (later_segments v)) = Fin 100"
    and "loadingStage (run s (later_segments v)) = ''Image loaded successfully!''"
    and "isLoading (run s (later_segments v)) = False"
    and "viewerInstance (run s (later_segments v)) = viewerInstance s"
proof -
  let ?xs = "concat (map progress_callback events)
      @ [SetLoadingStage ''Preparing viewer...'', SetLoadingProgress (Fin 98)]"
  have r: "run s (later_segments v) =
      run (run s ?xs) [SetLoadingStage ''Image loaded successfully!'',
        SetLoadingProgress (Fin 100), Timeout_SetIsLoading False]"
    unfolding later_segments_stale [OF assms] by (rule run_append)
  show "loadingProgress (run s (later_segments v)) = Fin 100"
    and "loadingStage (run s (later_segments v)) = ''Image loaded successfully!''"
    and "isLoading (run s (later_segments v)) = False"
    unfolding r by (simp_all add: run_def)
  have "\<forall>a \<in> set ?xs. \<not> widget_action a"
    using callbacks_no_widget [of events] by auto
  then have "viewerInstance (run s ?xs) = viewerInstance s" by (rule run_viewer)
  then show "viewerInstance (run s (later_segments v)) = viewerInstance s"
    unfolding r by (simp add: run_def)
qed

lemma first_segment_state:
  "loadingProgress (run s (first_segment v)) = Fin 2"
  "loadingStage (run s (first_segment v)) = ''Loading OpenSeadragon...''"
  "isLoading (run s (first_segment v)) = True"
  "viewerInstance (run s (first_segment v)) = viewerInstance s"
  by (simp_all add: first_segment_eq run_def)

text \<open>
  C9. Load A starts and waits after its first segment; \<open>tiffPath\<close> changes, the cleanup
  of A runs and load B makes its first segment, so that the display shows B at 2 percent,
  \<open>Loading OpenSeadragon...\<close>. The later segments of A then run with \<open>isMounted\<close>
  cleared: they create no widget, but they set the progress to 100, the stage to
  \<open>Image loaded successfully!\<close> and, by the timer, hide the loading overlay, while B is
  still loading.
\<close>

theorem stale_run_overwrites_display:
  "loadingProgress
     (run (cleanup (run initial_display (first_segment (sample_viewer\<lparr>isMounted := False\<rparr>))))
        (first_segment (sample_viewer\<lparr>tiffPath := ''/other.tif''\<rparr>))) = Fin 2
   \<and> loadingStage
     (run (cleanup (run initial_display (first_segment (sample_viewer\<lparr>isMounted := False\<rparr>))))
        (first_segment (sample_viewer\<lparr>tiffPath := ''/other.tif''\<rparr>)))
       = ''Loading OpenSeadragon...''
   \<and> loadingProgress
     (run (run (cleanup (run initial_display
                  (first_segment (sample_viewer\<lparr>isMounted := False\<rparr>))))
             (first_segment (sample_viewer\<lparr>tiffPath := ''/other.tif''\<rparr>)))
        (later_segments (sample_viewer\<lparr>isMounted := False\<rparr>))) = Fin 100
   \<and> loadingStage
     (run (run (cleanup (run initial_display
                  (first_segment (sample_viewer\<lparr>isMounted := False\<rparr>))))
             (first_segment (sample_viewer\<lparr>tiffPath := ''/other.tif''\<rparr>)))
        (later_segments (sample_viewer\<lparr>isMounted := False\<rparr>)))
       = ''Image loaded successfully!''
   \<and> isLoading
     (run (run (cleanup (run initial_display
                  (first_segment (sample_viewer\<lparr>isMounted := False\<rparr>))))
             (first_segment (sample_viewer\<lparr>tiffPath := ''/other.tif''\<rparr>)))
        (later_segments (sample_viewer\<lparr>isMounted := False\<rparr>))) = False
   \<and> viewerInstance
     (run (run (cleanup (run initial_display
                  (first_segment (sample_viewer\<lparr>isMounted := False\<rparr>))))
             (first_segment (sample_viewer\<lparr>tiffPath := ''/other.tif''\<rparr>)))
        (later_segments (sample_viewer\<lparr>isMounted := False\<rparr>))) = None"
proof -
  let ?A = "sample_viewer\<lparr>isMounted := False\<rparr>"
  have o: "openSeadragon ?A = None" "canvas_context ?A" "\<not> isMounted ?A"
    by (simp_all add: sample_viewer_def)
  have l: "loadAndProcessTiff (load_env ?A) (tiffPath ?A) =
      (fst (loadAndProcessTiff sample_env ''/file.tif''),
       Inr \<lparr>image_data = [128, 128, 128, 255], image_width = 1, image_height = 1\<rparr>)"
    by (simp add: sample_viewer_def sample_load)
  show ?thesis
    by (simp add: stale_completion [OF o(1) l o(2) o(3)] first_segment_state cleanup_def)
qed

subsection \<open>Format validation\<close>

lemma char_of_eq_nat: "n < 256 \<Longrightarrow> char_of (n::nat) = c \<longleftrightarrow> n = of_char c"
  by (metis char_of_char of_char_of mod_less)

lemma fromCharCode_II:
  "a < 256 \<Longrightarrow> b < 256 \<Longrightarrow> fromCharCode [a, b] = ''II'' \<longleftrightarrow> a = 73 \<and> b = 73"
  by (simp add: fromCharCode_def char_of_eq_nat)

lemma fromCharCode_MM:
  "a < 256 \<Longrightarrow> b < 256 \<Longrightarrow> fromCharCode [a, b] = ''MM'' \<longleftrightarrow> a = 77 \<and> b = 77"
  by (simp add: fromCharCode_def char_of_eq_nat)

lemma unat8_lt: "unat (w :: 8 word) < 256"
  using unsigned_less [of w, where 'a = nat] by simp

lemma toString_radix_nonempty: "toString_radix b n \<noteq> []"
  by (subst toString_radix.simps) simp

text \<open>
  On a buffer of at least eight bytes no \<open>DataView\<close> read is out of range, and the body
  of \<open>validateTiff\<close> reduces to its three tests.
\<close>

lemma validateTiff_try_long:
  assumes "8 \<le> length buffer"
  shows "validateTiff_try buffer =
    (let byte1 = unat (buffer ! 0); byte2 = unat (buffer ! 1) in
     if \<not> (byte1 = 73 \<and> byte2 = 73) \<and> \<not> (byte1 = 77 \<and> byte2 = 77) then
       Inr \<lparr>isValid = False,
            message = ''Invalid TIFF byte order marker: 0x''
              @ padStart 2 CHR ''0'' (toString_radix 16 byte1)
              @ padStart 2 CHR ''0'' (toString_radix 16 byte2)\<rparr>
     else let magicNumber = (if byte1 = 73 \<and> byte2 = 73
             then unat (buffer ! 2) + 256 * unat (buffer ! 3)
             else 256 * unat (buffer ! 2) + unat (buffer ! 3)) in
       if magicNumber \<noteq> 42 then
         Inr \<lparr>isValid = False,
              message = ''Invalid TIFF magic number: ''
                @ toString_radix 10 magicNumber @ '' (expected 42)''\<rparr>
       else Inr \<lparr>isValid = True, message = ''Valid TIFF file''\<rparr>)"
proof -
  have l: "\<not> length buffer < 8" "0 < length buffer" "1 < length buffer" "3 < length buffer"
    using assms by auto
  show ?thesis
    using l by (simp add: validateTiff_try_def getUint8_def getUint16_def Let_def
        fromCharCode_II fromCharCode_MM unat8_lt)
qed

text \<open>
  C6. For every buffer, \<open>validateTiff\<close> returns a result record and nothing is thrown
  inside it (the body itself returns the record, the \<open>catch\<close> branch is never taken);
  the record has \<open>isValid = True\<close> exactly when the buffer has at least 8 bytes, its
  first two bytes are \<open>II\<close> (73, 73) or \<open>MM\<close> (77, 77), and the 16-bit integer at
  offset 2, little-endian for \<open>II\<close> and big-endian for \<open>MM\<close>, is 42; the message is
  never empty.
\<close>

theorem validateTiff_spec:
  "isValid (validateTiff buffer) =
     (8 \<le> length buffer \<and>
      (unat (buffer ! 0) = 73 \<and> unat (buffer ! 1) = 73 \<and>
         unat (buffer ! 2) + 256 * unat (buffer ! 3) = 42
       \<or> unat (buffer ! 0) = 77 \<and> unat (buffer ! 1) = 77 \<and>
         256 * unat (buffer ! 2) + unat (buffer ! 3) = 42))
   \<and> message (validateTiff buffer) \<noteq> []
   \<and> validateTiff_try buffer = Inr (validateTiff buffer)"
proof (cases "8 \<le> length buffer")
  case False
  then show ?thesis
    by (simp add: validateTiff_def validateTiff_try_def)
next
  case True
  show ?thesis
    unfolding validateTiff_def validateTiff_try_long [OF True] Let_def
    using True by (auto simp add: toString_radix_nonempty)
qed

theorem validateTiff_spec_witness:
  "isValid (validateTiff [73, 73, 42, 0, 8, 0, 0, 0])
   \<and> isValid (validateTiff [77, 77, 0, 42, 0, 0, 0, 8])
   \<and> \<not> isValid (validateTiff [77, 77, 42, 0, 0, 0, 0, 8])
   \<and> \<not> isValid (validateTiff [73, 73, 42, 0, 8, 0, 0])"
  using validateTiff_spec [of "[73, 73, 42, 0, 8, 0, 0, 0]"]
    validateTiff_spec [of "[77, 77, 0, 42, 0, 0, 0, 8]"]
    validateTiff_spec [of "[77, 77, 42, 0, 0, 0, 0, 8]"]
    validateTiff_spec [of "[73, 73, 42, 0, 8, 0, 0]"]
  by simp

lemma validateTiff_messages:
  "validateTiff [77, 77, 42, 0, 0, 0, 0, 8] =
     \<lparr>isValid = False, message = ''Invalid TIFF magic number: 10752 (expected 42)''\<rparr>"
  "validateTiff [10, 255, 42, 0, 0, 0, 0, 8] =
     \<lparr>isValid = False, message = ''Invalid TIFF byte order marker: 0x0aff''\<rparr>"
  by (simp_all add: validateTiff_def validateTiff_try_long Let_def
        toString_radix.simps digit_char_def padStart_def)

lemma validateTiff_too_small:
  "validateTiff [73, 73, 42, 0, 0, 0, 0] =
     \<lparr>isValid = False, message = ''File is too small to be a valid TIFF''\<rparr>"
  by (simp add: validateTiff_def validateTiff_try_def)

subsection \<open>8-bit data: the two normalizers agree\<close>

text \<open>
  C10. For every 8-bit \<open>Uint8Array\<close> sample array the enhanced normalizer with
  \<open>bitsPerSample = 8\<close> and the plain normalizer give the same output, element for
  element, and that output is the input itself.
\<close>

theorem normalize_8bit_agree:
  "normalizeToUint8Enhanced (Uint8Array data) 8 = normalizeToUint8 (Uint8Array data) 8
   \<and> normalizeToUint8 (Uint8Array data) 8 = data"
  by simp

end
